theory Spec2Isabelle
  imports Main "HOL-Library.Word"
begin

unbundle bit_operations_syntax

section \<open>Data model\<close>

text \<open>
  The detector of Deadlock-Go keeps, for every go routine, a holding set and a lock tree
  (a list of dependencies), and searches these trees for cyclic chains. The Go code works
  on pointers: a lock is passed around as a \<^verbatim>\<open>mutexInt\<close> interface value holding a
  \<^verbatim>\<open>*Mutex\<close> or a \<^verbatim>\<open>*RWMutex\<close>, a dependency as a \<^verbatim>\<open>*dependency\<close>. The model keeps
  the pointers as values and the objects in explicit stores, so that the pointer
  comparisons of the source (\<^verbatim>\<open>d.mu == m\<close>, \<^verbatim>\<open>c.depEntry == dep\<close>) stay comparisons of
  pointers. Panics, \<^verbatim>\<open>os.Exit\<close> and a blocking primitive are values of type \<open>error\<close>;
  \<open>OutOfFuel\<close> is the value of a search that was given too little fuel to finish.
\<close>

type_synonym addr = nat

text \<open>A \<^verbatim>\<open>mutexInt\<close> interface value: nil, or a pointer with its dynamic type.\<close>

datatype mutexInt = NilMutex | MutexPtr addr | RWMutexPtr addr

datatype error =
    NilDereference
  | IndexOutOfRange
  | PanicNotCreated
  | PanicNotLocked
  | PanicMaxRoutines
  | PanicMaxDependencies
  | PanicMaxDependentLocks
  | FatalUnlockOfUnlocked
  | Blocked
  | Exit int
  | OutOfFuel

text \<open>callerInfo.go (the field \<^verbatim>\<open>file\<close> is \<open>fileName\<close> here)\<close>

record callerInfo =
  fileName :: string
  line :: int
  create :: bool
  callStacks :: string

definition newInfo :: "string \<Rightarrow> int \<Rightarrow> bool \<Rightarrow> string \<Rightarrow> callerInfo" where
  "newInfo f l c callStack = \<lparr>fileName = f, line = l, create = c, callStacks = callStack\<rparr>"

text \<open>
  The fields of \<^verbatim>\<open>Mutex\<close> (mutex.go) and \<^verbatim>\<open>RWMutex\<close> (rwMutex.go). \<open>mu\<close> is the pointer
  to the wrapped \<^verbatim>\<open>sync.Mutex\<close> or \<^verbatim>\<open>sync.RWMutex\<close>; \<open>inited\<close> is the field \<^verbatim>\<open>in\<close>, \<open>lockContext\<close> the field \<^verbatim>\<open>context\<close>;
  a Go map is a partial function; \<open>isRLock\<close> exists on an \<^verbatim>\<open>RWMutex\<close> only and is
  never read through a \<^verbatim>\<open>*Mutex\<close>.
\<close>

record lockObj =
  mu :: addr
  lockContext :: "callerInfo list"
  inited :: bool
  numberLocked :: int
  isLockedRoutineIndex :: "int \<rightharpoonup> int"
  memoryPosition :: "64 word"
  isRLock :: "int \<rightharpoonup> bool"

type_synonym lockStore = "mutexInt \<Rightarrow> lockObj"

text \<open>dependency.go: \<^verbatim>\<open>type dependency struct\<close>\<close>

record dependency =
  depMu :: mutexInt
  depHoldingSet :: "mutexInt list"
  depHoldingCount :: nat

text \<open>A \<^verbatim>\<open>*dependency\<close> is the position of the object in the store of dependencies.\<close>

type_synonym depPtr = nat

text \<open>
  routine.go: \<^verbatim>\<open>type routine struct\<close>. The counters \<^verbatim>\<open>holdingCount\<close> and
  \<^verbatim>\<open>depCount\<close> start at 0 and are only decremented after a successful search below
  them, so they are natural numbers; the index of a routine is compared with -1 and
  stays an integer. \<^verbatim>\<open>dependencyMap\<close> maps a key to (a pointer to) a slice of
  dependency pointers.
\<close>

record routine =
  index :: int
  holdingCount :: nat
  holdingSet :: "mutexInt list"
  dependencyMap :: "64 word \<rightharpoonup> depPtr list"
  dependencies :: "depPtr option list"
  curDep :: "depPtr option"
  depCount :: nat
  collectedSingleLevelLocks :: "string \<rightharpoonup> int list"

section \<open>routine.go: updateUnlock\<close>

text \<open>
  \<^verbatim>\<open>for i := r.holdingCount - 1; i >= 0; i-- { if r.holdingSet[i] == m { ... break } }\<close>

  \<open>updateUnlockFrom m r (Suc i)\<close> is the loop at index \<open>i\<close>, \<open>updateUnlockFrom m r 0\<close> the
  loop left at \<open>i = -1\<close>. The two \<^verbatim>\<open>append\<close>s splice the entry out and put a nil at
  the end, so the slice keeps its length.
\<close>

fun updateUnlockFrom :: "mutexInt \<Rightarrow> routine \<Rightarrow> nat \<Rightarrow> error + routine" where
  "updateUnlockFrom m r 0 = Inr r"
| "updateUnlockFrom m r (Suc i) =
     (if length (holdingSet r) \<le> i then Inl IndexOutOfRange
      else if holdingSet r ! i = m then
        Inr (r\<lparr>holdingSet := take i (holdingSet r) @ drop (Suc i) (holdingSet r) @ [NilMutex],
               holdingCount := holdingCount r - 1\<rparr>)
      else updateUnlockFrom m r i)"

definition updateUnlock :: "mutexInt \<Rightarrow> routine \<Rightarrow> error + routine" where
  "updateUnlock m r = updateUnlockFrom m r (holdingCount r)"

section \<open>mutexInt.go, mutex.go, rwMutex.go: the methods of a lock\<close>

text \<open>
  A method called on a nil interface value panics. \<^verbatim>\<open>getLock\<close> returns
  \<^verbatim>\<open>(true, m.mu, nil)\<close> for a \<^verbatim>\<open>*Mutex\<close> and \<^verbatim>\<open>(false, nil, m.mu)\<close> for a
  \<^verbatim>\<open>*RWMutex\<close>.
\<close>

definition getLock :: "lockStore \<Rightarrow> mutexInt \<Rightarrow> error + (bool \<times> addr option \<times> addr option)" where
  "getLock ls m =
     (case m of
        NilMutex \<Rightarrow> Inl NilDereference
      | MutexPtr a \<Rightarrow> Inr (True, Some (mu (ls m)), None)
      | RWMutexPtr a \<Rightarrow> Inr (False, None, Some (mu (ls m))))"

definition getMemoryPosition :: "lockStore \<Rightarrow> mutexInt \<Rightarrow> error + 64 word" where
  "getMemoryPosition ls m =
     (case m of NilMutex \<Rightarrow> Inl NilDereference | _ \<Rightarrow> Inr (memoryPosition (ls m)))"

text \<open>
  \<^verbatim>\<open>func (m *Mutex) getRLock(routineIndex int) bool { return false }\<close>

  \<^verbatim>\<open>func (m *RWMutex) getRLock(routineIndex int) bool {
      ok, res := m.isRLock[routineIndex]; if !ok { return false }; return res }\<close>

  The map read yields the stored value first and the presence flag second, so \<open>ok\<close> is
  the value and \<open>res\<close> the presence.
\<close>

definition getRLock :: "lockStore \<Rightarrow> mutexInt \<Rightarrow> int \<Rightarrow> error + bool" where
  "getRLock ls m routineIndex =
     (case m of
        NilMutex \<Rightarrow> Inl NilDereference
      | MutexPtr a \<Rightarrow> Inr False
      | RWMutexPtr a \<Rightarrow>
          (let (ok, res) = (case isRLock (ls m) routineIndex of
                              None \<Rightarrow> (False, False)
                            | Some v \<Rightarrow> (v, True))
           in if \<not> ok then Inr False else Inr res))"

definition setRLock :: "lockStore \<Rightarrow> mutexInt \<Rightarrow> int \<Rightarrow> bool \<Rightarrow> error + lockStore" where
  "setRLock ls m routineIndex v =
     (case m of
        NilMutex \<Rightarrow> Inl NilDereference
      | MutexPtr a \<Rightarrow> Inr ls
      | RWMutexPtr a \<Rightarrow>
          Inr (ls(m := (ls m)\<lparr>isRLock := (isRLock (ls m))(routineIndex \<mapsto> v)\<rparr>)))"

text \<open>detector.go: mutexHaveEqualLock\<close>

definition mutexHaveEqualLock :: "lockStore \<Rightarrow> mutexInt \<Rightarrow> mutexInt \<Rightarrow> error + bool" where
  "mutexHaveEqualLock ls m1 m2 =
     (case getLock ls m1 of
        Inl e \<Rightarrow> Inl e
      | Inr (isMutex1, mutex1, rwmutex1) \<Rightarrow>
     (case getLock ls m2 of
        Inl e \<Rightarrow> Inl e
      | Inr (isMutex2, mutex2, rwmutex2) \<Rightarrow>
          if isMutex1 \<noteq> isMutex2 then Inr False
          else if isMutex1 \<and> mutex1 = mutex2 then Inr True
          else if \<not> isMutex1 \<and> rwmutex1 = rwmutex2 then Inr True
          else Inr False))"

text \<open>\<^verbatim>\<open>m1.getRLock(i1) && m2.getRLock(i2)\<close>: the second call is made only if the first is true.\<close>

definition bothRLock :: "lockStore \<Rightarrow> mutexInt \<Rightarrow> int \<Rightarrow> mutexInt \<Rightarrow> int \<Rightarrow> error + bool" where
  "bothRLock ls m1 i1 m2 i2 =
     (case getRLock ls m1 i1 of
        Inl e \<Rightarrow> Inl e
      | Inr b \<Rightarrow> if b then getRLock ls m2 i2 else Inr False)"

section \<open>stack.go\<close>

text \<open>
  The stack is a doubly linked list that starts with an empty element
  (\<^verbatim>\<open>newStackElement(nil, -1)\<close>). \<open>stack\<close> is that first element, \<open>chain\<close> the elements
  linked behind it (\<^verbatim>\<open>stack.next\<close>, \<^verbatim>\<open>stack.next.next\<close>, ...), bottom first; the
  \<^verbatim>\<open>prev\<close> and \<^verbatim>\<open>next\<close> pointers are the order of the list and \<^verbatim>\<open>top\<close> is its last
  element. The field \<^verbatim>\<open>index\<close> of a stack element is \<open>stackIndex\<close>.
\<close>

record stackElement =
  depEntry :: "depPtr option"
  stackIndex :: int

definition newStackElement :: "depPtr option \<Rightarrow> int \<Rightarrow> stackElement" where
  "newStackElement dep i = \<lparr>depEntry = dep, stackIndex = i\<rparr>"

record depStack =
  stack :: stackElement
  chain :: "stackElement list"

definition newDepStack :: depStack where
  "newDepStack = \<lparr>stack = newStackElement None (-1), chain = []\<rparr>"

definition stackTop :: "depStack \<Rightarrow> stackElement" where
  "stackTop s = (if chain s = [] then stack s else last (chain s))"

definition push :: "depStack \<Rightarrow> depPtr option \<Rightarrow> int \<Rightarrow> depStack" where
  "push s dep i = s\<lparr>chain := chain s @ [newStackElement dep i]\<rparr>"

definition pop :: "depStack \<Rightarrow> depStack" where
  "pop s = (if chain s = [] then s else s\<lparr>chain := butlast (chain s)\<rparr>)"

section \<open>detector.go: isChain and isCycleChain\<close>

text \<open>
  A \<^verbatim>\<open>for\<close> loop that leaves (by \<^verbatim>\<open>break\<close> or \<^verbatim>\<open>return\<close>) at the first element for
  which its body decides; a panic in the body ends it.
\<close>

fun existsE :: "('a \<Rightarrow> error + bool) \<Rightarrow> 'a list \<Rightarrow> error + bool" where
  "existsE f [] = Inr False"
| "existsE f (x # xs) =
     (case f x of Inl e \<Rightarrow> Inl e | Inr b \<Rightarrow> if b then Inr True else existsE f xs)"

type_synonym depStore = "depPtr \<Rightarrow> dependency"

text \<open>
  The body of the first loop of \<^verbatim>\<open>isChain\<close>, at index \<open>i\<close>: true when \<^verbatim>\<open>found\<close> is set.
\<close>

definition isChainLink :: "lockStore \<Rightarrow> depStore \<Rightarrow> depStack \<Rightarrow> dependency \<Rightarrow> int \<Rightarrow> nat \<Rightarrow> error + bool" where
  "isChainLink ls ds st d routineIndex i =
     (if length (depHoldingSet d) \<le> i then Inl IndexOutOfRange
      else
        let mutexInHs = depHoldingSet d ! i in
        (case depEntry (stackTop st) of
           None \<Rightarrow> Inl NilDereference
         | Some tp \<Rightarrow>
        (case mutexHaveEqualLock ls mutexInHs (depMu (ds tp)) of
           Inl e \<Rightarrow> Inl e
         | Inr eq \<Rightarrow>
             if eq then
               (case bothRLock ls mutexInHs routineIndex (depMu (ds tp)) (stackIndex (stackTop st)) of
                  Inl e \<Rightarrow> Inl e
                | Inr both \<Rightarrow> Inr (\<not> both))
             else Inr False)))"

text \<open>
  The body of the innermost loop of \<^verbatim>\<open>isChain\<close>, for the stack element \<open>c\<close> and the
  indices \<open>i\<close>, \<open>j\<close>: true when the function returns false there.
\<close>

definition isChainGate :: "lockStore \<Rightarrow> depStore \<Rightarrow> stackElement \<Rightarrow> dependency \<Rightarrow> int \<Rightarrow> nat \<Rightarrow> nat \<Rightarrow> error + bool" where
  "isChainGate ls ds c d routineIndex i j =
     (if length (depHoldingSet d) \<le> i then Inl IndexOutOfRange
      else
        let lockInDepHs = depHoldingSet d ! i in
        (case depEntry c of
           None \<Rightarrow> Inl NilDereference
         | Some cp \<Rightarrow>
             if length (depHoldingSet (ds cp)) \<le> j then Inl IndexOutOfRange
             else
               let lockInCHoldingSet = depHoldingSet (ds cp) ! j in
               (case mutexHaveEqualLock ls lockInDepHs lockInCHoldingSet of
                  Inl e \<Rightarrow> Inl e
                | Inr eq \<Rightarrow>
                    if eq then
                      (case bothRLock ls lockInCHoldingSet (stackIndex c) lockInDepHs routineIndex of
                         Inl e \<Rightarrow> Inl e
                       | Inr both \<Rightarrow> Inr (\<not> both))
                    else Inr False)))"

text \<open>
  The body of the loop over the stack, for the element \<open>c\<close>: true when the function
  returns false there. \<^verbatim>\<open>c.depEntry.holdingCount\<close> is read when the loop over \<open>j\<close> starts.
\<close>

definition isChainElem :: "lockStore \<Rightarrow> depStore \<Rightarrow> depPtr \<Rightarrow> int \<Rightarrow> stackElement \<Rightarrow> error + bool" where
  "isChainElem ls ds dp routineIndex c =
     (if depEntry c = Some dp then Inr True
      else
        existsE (\<lambda>i.
          (case depEntry c of
             None \<Rightarrow> Inl NilDereference
           | Some cp \<Rightarrow>
               existsE (isChainGate ls ds c (ds dp) routineIndex i) [0..<depHoldingCount (ds cp)]))
          [0..<depHoldingCount (ds dp)])"

definition isChain :: "lockStore \<Rightarrow> depStore \<Rightarrow> depStack \<Rightarrow> depPtr option \<Rightarrow> int \<Rightarrow> error + bool" where
  "isChain ls ds st dep routineIndex =
     (case dep of
        None \<Rightarrow> Inl NilDereference
      | Some dp \<Rightarrow>
     (case existsE (isChainLink ls ds st (ds dp) routineIndex) [0..<depHoldingCount (ds dp)] of
        Inl e \<Rightarrow> Inl e
      | Inr found \<Rightarrow>
          if \<not> found then Inr False
          else
            (case existsE (isChainElem ls ds dp routineIndex) (chain st) of
               Inl e \<Rightarrow> Inl e
             | Inr bad \<Rightarrow> Inr (\<not> bad))))"

text \<open>
  The body of the loop of \<^verbatim>\<open>isCycleChain\<close>. The reader flag of the lock in the holding
  set of the bottom dependency is read with \<^verbatim>\<open>dStack.stack.index\<close>, the index of the
  empty first element of the stack.
\<close>

definition isCycleChainLink :: "lockStore \<Rightarrow> depStore \<Rightarrow> depStack \<Rightarrow> depPtr \<Rightarrow> depPtr \<Rightarrow> int \<Rightarrow> nat \<Rightarrow> error + bool" where
  "isCycleChainLink ls ds dStack bp dp routineIndex i =
     (if length (depHoldingSet (ds bp)) \<le> i then Inl IndexOutOfRange
      else
        let mutexInHs = depHoldingSet (ds bp) ! i in
        (case mutexHaveEqualLock ls mutexInHs (depMu (ds dp)) of
           Inl e \<Rightarrow> Inl e
         | Inr eq \<Rightarrow>
             if eq then
               (case bothRLock ls mutexInHs (stackIndex (stack dStack)) (depMu (ds dp)) routineIndex of
                  Inl e \<Rightarrow> Inl e
                | Inr both \<Rightarrow> Inr (\<not> both))
             else Inr False))"

definition isCycleChain :: "lockStore \<Rightarrow> depStore \<Rightarrow> depStack \<Rightarrow> depPtr option \<Rightarrow> int \<Rightarrow> error + bool" where
  "isCycleChain ls ds dStack dep routineIndex =
     (case chain dStack of
        [] \<Rightarrow> Inl NilDereference
      | bottom # _ \<Rightarrow>
     (case depEntry bottom of
        None \<Rightarrow> Inl NilDereference
      | Some bp \<Rightarrow>
          existsE (\<lambda>i. case dep of
                          None \<Rightarrow> Inl NilDereference
                        | Some dp \<Rightarrow> isCycleChainLink ls ds dStack bp dp routineIndex i)
            [0..<depHoldingCount (ds bp)]))"

text \<open>
  The objects the detector builds: a dependency records at most as many locks as its
  holding set has entries, none of them nil, and its own lock is not nil; every element
  pushed on the stack carries a dependency.
\<close>

definition depWellFormed :: "depStore \<Rightarrow> depPtr \<Rightarrow> bool" where
  "depWellFormed ds p \<longleftrightarrow>
     depHoldingCount (ds p) \<le> length (depHoldingSet (ds p)) \<and>
     (\<forall>i<depHoldingCount (ds p). depHoldingSet (ds p) ! i \<noteq> NilMutex) \<and>
     depMu (ds p) \<noteq> NilMutex"

definition pathWellFormed :: "depStore \<Rightarrow> depStack \<Rightarrow> bool" where
  "pathWellFormed ds st \<longleftrightarrow>
     chain st \<noteq> [] \<and> (\<forall>c\<in>set (chain st). \<exists>cp. depEntry c = Some cp \<and> depWellFormed ds cp)"

text \<open>Two locks are the same lock; a lock was last acquired as a reader by a routine.\<close>

definition equalLock :: "lockStore \<Rightarrow> mutexInt \<Rightarrow> mutexInt \<Rightarrow> bool" where
  "equalLock ls a b \<longleftrightarrow> mutexHaveEqualLock ls a b = Inr True"

definition rLocked :: "lockStore \<Rightarrow> mutexInt \<Rightarrow> int \<Rightarrow> bool" where
  "rLocked ls m i \<longleftrightarrow> getRLock ls m i = Inr True"

section \<open>options.go\<close>

text \<open>
  The option bag \<^verbatim>\<open>opts\<close>. It cannot be changed once the detector is initialised, so
  the operations below take it as a parameter. The caps are sizes handed to \<^verbatim>\<open>make\<close>
  (which panics on a negative size when the detector is initialised) and are natural
  numbers here; \<^verbatim>\<open>periodicDetectionTime\<close> only sets the period of the ticker.
\<close>

record options =
  activated :: bool
  periodicDetection :: bool
  comprehensiveDetection :: bool
  collectCallStack :: bool
  collectSingleLevelLockStack :: bool
  checkDoubleLocking :: bool
  maxDependencies :: nat
  maxNumberOfDependentLocks :: nat
  maxRoutines :: nat
  maxCallStackSize :: nat

definition defaultOpts :: options where
  "defaultOpts = \<lparr>activated = True, periodicDetection = True, comprehensiveDetection = True,
     collectCallStack = False, collectSingleLevelLockStack = True, checkDoubleLocking = True,
     maxDependencies = 4096, maxNumberOfDependentLocks = 128, maxRoutines = 1024,
     maxCallStackSize = 2048\<rparr>"

text \<open>
  What the Go runtime reports about the caller of a lock operation: the file and line of
  \<^verbatim>\<open>runtime.Caller(3)\<close> and the text of \<^verbatim>\<open>runtime.Stack\<close> after the cleaning done in
  updateLock. It is an input of the operation.
\<close>

record callSite =
  siteFile :: string
  siteLine :: int
  siteStack :: string

section \<open>dependency.go\<close>

text \<open>
  \<^verbatim>\<open>newDependency\<close> makes a holding set of \<^verbatim>\<open>opts.maxNumberOfDependentLocks\<close> nil entries
  and appends the first \<open>numberOfLocks\<close> entries of \<open>currentLocks\<close> behind them.
\<close>

definition newDependency :: "options \<Rightarrow> mutexInt \<Rightarrow> mutexInt list \<Rightarrow> nat \<Rightarrow> error + dependency" where
  "newDependency opts lock currentLocks numberOfLocks =
     (if length currentLocks < numberOfLocks then Inl IndexOutOfRange
      else Inr \<lparr>depMu = lock,
                depHoldingSet = replicate (maxNumberOfDependentLocks opts) NilMutex
                                @ take numberOfLocks currentLocks,
                depHoldingCount = numberOfLocks\<rparr>)"

text \<open>
  \<^verbatim>\<open>update\<close>: the built-in \<^verbatim>\<open>copy(d.holdingSet, *hs)\<close> overwrites the first
  \<open>min (len d.holdingSet) (len hs)\<close> entries of the dependency's holding set.
\<close>

definition update :: "dependency \<Rightarrow> mutexInt \<Rightarrow> mutexInt list \<Rightarrow> nat \<Rightarrow> dependency" where
  "update d lock hs numberOfLocks =
     d\<lparr>depMu := lock,
       depHoldingSet := take (min (length (depHoldingSet d)) (length hs)) hs
                        @ drop (min (length (depHoldingSet d)) (length hs)) (depHoldingSet d),
       depHoldingCount := numberOfLocks\<rparr>"

section \<open>routine.go: updateLock, dependencyAlreadyExists, updateTryLock\<close>

text \<open>The locks and the dependency objects; \<open>depNext\<close> is where the next dependency is allocated.\<close>

record store =
  locks :: lockStore
  depObjs :: depStore
  depNext :: depPtr

text \<open>
  \<^verbatim>\<open>i := 0; for d.holdingSet[i] == r.holdingSet[i] && i < hc { i++ }\<close>

  Both slices are read at \<open>i\<close> before \<open>i < hc\<close> is tested. The result is the final \<open>i\<close>.
\<close>

function holdingSetsAgree :: "mutexInt list \<Rightarrow> mutexInt list \<Rightarrow> nat \<Rightarrow> nat \<Rightarrow> error + nat" where
  "holdingSetsAgree dhs rhs hc i =
     (if length dhs \<le> i \<or> length rhs \<le> i then Inl IndexOutOfRange
      else if dhs ! i = rhs ! i \<and> i < hc then holdingSetsAgree dhs rhs hc (Suc i)
      else Inr i)"
  by pat_completeness auto
termination
  by (relation "measure (\<lambda>(dhs, rhs, hc, i). hc - i)") auto

definition dependencyAlreadyExists :: "depStore \<Rightarrow> routine \<Rightarrow> mutexInt \<Rightarrow> depPtr list \<Rightarrow> error + bool" where
  "dependencyAlreadyExists ds r m depList =
     existsE (\<lambda>dp.
        let d = ds dp; hc = holdingCount r in
        if depMu d = m \<and> depHoldingCount d = hc then
          (case holdingSetsAgree (depHoldingSet d) (holdingSet r) hc 0 of
             Inl e \<Rightarrow> Inl e
           | Inr i \<Rightarrow> Inr (i = hc))
        else Inr False) depList"

text \<open>
  The branch \<^verbatim>\<open>hc > 0\<close> of updateLock. The result is \<^verbatim>\<open>isNew\<close>, the routine and the store.
\<close>

definition updateLockNested :: "options \<Rightarrow> mutexInt \<Rightarrow> routine \<Rightarrow> store \<Rightarrow> error + (bool \<times> routine \<times> store)" where
  "updateLockNested opts m r st =
     (let hc = holdingCount r in
      if length (holdingSet r) \<le> hc - 1 then Inl IndexOutOfRange
      else
        (case getMemoryPosition (locks st) m of
           Inl e \<Rightarrow> Inl e
         | Inr p1 \<Rightarrow>
        (case getMemoryPosition (locks st) (holdingSet r ! (hc - 1)) of
           Inl e \<Rightarrow> Inl e
         | Inr p2 \<Rightarrow>
             let key = p1 XOR p2; d = dependencyMap r key in
             (case (case d of
                      None \<Rightarrow> Inr False
                    | Some depList \<Rightarrow> dependencyAlreadyExists (depObjs st) r m depList) of
                Inl e \<Rightarrow> Inl e
              | Inr found \<Rightarrow>
                  if \<not> found then
                    if maxDependencies opts \<le> depCount r then Inl PanicMaxDependencies
                    else
                      (case newDependency opts m (holdingSet r) hc of
                         Inl e \<Rightarrow> Inl e
                       | Inr dep \<Rightarrow>
                           if length (dependencies r) \<le> depCount r then Inl IndexOutOfRange
                           else
                             let p = depNext st in
                             Inr (True,
                                  r\<lparr>dependencies := (dependencies r)[depCount r := Some p],
                                    depCount := depCount r + 1,
                                    dependencyMap := (dependencyMap r)
                                      (key \<mapsto> (case d of Some depList \<Rightarrow> depList @ [p] | None \<Rightarrow> [p])),
                                    curDep := Some p\<rparr>,
                                  st\<lparr>depObjs := (depObjs st)(p := update dep m (holdingSet r) hc),
                                     depNext := Suc p\<rparr>))
                  else Inr (False, r, st)))))"

text \<open>The branch \<^verbatim>\<open>hc == 0\<close>: the result is \<^verbatim>\<open>isNew\<close> and the routine.\<close>

definition updateLockSingleLevel :: "options \<Rightarrow> callSite \<Rightarrow> routine \<Rightarrow> bool \<times> routine" where
  "updateLockSingleLevel opts site r =
     (if collectSingleLevelLockStack opts then
        (case collectedSingleLevelLocks r (siteFile site) of
           Some lines \<Rightarrow>
             if siteLine site \<in> set lines then (False, r)
             else (True, r\<lparr>collectedSingleLevelLocks :=
                     (collectedSingleLevelLocks r)(siteFile site \<mapsto> lines @ [siteLine site])\<rparr>)
         | None \<Rightarrow>
             (True, r\<lparr>collectedSingleLevelLocks :=
                     (collectedSingleLevelLocks r)(siteFile site \<mapsto> [siteLine site])\<rparr>))
      else (False, r))"

definition updateLock :: "options \<Rightarrow> callSite \<Rightarrow> mutexInt \<Rightarrow> bool \<Rightarrow> routine \<Rightarrow> store \<Rightarrow> error + (routine \<times> store)" where
  "updateLock opts site m rLock r st =
     (let hc = holdingCount r in
      case setRLock (locks st) m (index r) rLock of
        Inl e \<Rightarrow> Inl e
      | Inr ls \<Rightarrow>
     (case (if 0 < hc then updateLockNested opts m r (st\<lparr>locks := ls\<rparr>)
            else (let (isNew, r') = updateLockSingleLevel opts site r
                  in Inr (isNew, r', st\<lparr>locks := ls\<rparr>))) of
        Inl e \<Rightarrow> Inl e
      | Inr (isNew, r1, st1) \<Rightarrow>
          let st2 =
            (if isNew \<and> (0 < hc \<or> collectSingleLevelLockStack opts) then
               st1\<lparr>locks := (locks st1)(m := (locks st1 m)\<lparr>lockContext := lockContext (locks st1 m) @
                  [newInfo (siteFile site) (siteLine site) False
                     (if collectCallStack opts then siteStack site else [])]\<rparr>)\<rparr>
             else st1)
          in
          if maxNumberOfDependentLocks opts \<le> hc then Inl PanicMaxDependentLocks
          else if length (holdingSet r1) \<le> hc then Inl IndexOutOfRange
          else Inr (r1\<lparr>holdingSet := (holdingSet r1)[hc := m],
                       holdingCount := holdingCount r1 + 1\<rparr>, st2)))"

definition updateTryLock :: "options \<Rightarrow> mutexInt \<Rightarrow> bool \<Rightarrow> routine \<Rightarrow> store \<Rightarrow> error + (routine \<times> store)" where
  "updateTryLock opts m rLock r st =
     (let hc = holdingCount r in
      if maxNumberOfDependentLocks opts \<le> hc then Inl PanicMaxDependentLocks
      else
        (case setRLock (locks st) m (index r) rLock of
           Inl e \<Rightarrow> Inl e
         | Inr ls \<Rightarrow>
             if length (holdingSet r) \<le> hc then Inl IndexOutOfRange
             else Inr (r\<lparr>holdingSet := (holdingSet r)[hc := m],
                          holdingCount := holdingCount r + 1\<rparr>, st\<lparr>locks := ls\<rparr>)))"

section \<open>Acquisition patterns of one routine\<close>

text \<open>
  A pattern is a sequence of lock and unlock operations of one routine; running it feeds
  updateLock and updateUnlock in order and stops at the first panic. \<open>repeatOps n\<close> runs
  the pattern \<open>n\<close> times in a row.
\<close>

datatype lockOp = OpLock mutexInt bool callSite | OpUnlock mutexInt

fun stepOp :: "options \<Rightarrow> lockOp \<Rightarrow> routine \<times> store \<Rightarrow> error + (routine \<times> store)" where
  "stepOp opts (OpLock m rLock site) (r, st) = updateLock opts site m rLock r st"
| "stepOp opts (OpUnlock m) (r, st) =
     (case updateUnlock m r of Inl e \<Rightarrow> Inl e | Inr r' \<Rightarrow> Inr (r', st))"

fun runOps :: "options \<Rightarrow> lockOp list \<Rightarrow> routine \<times> store \<Rightarrow> error + (routine \<times> store)" where
  "runOps opts [] s = Inr s"
| "runOps opts (x # xs) s =
     (case stepOp opts x s of Inl e \<Rightarrow> Inl e | Inr s' \<Rightarrow> runOps opts xs s')"

fun repeatOps :: "options \<Rightarrow> nat \<Rightarrow> lockOp list \<Rightarrow> routine \<times> store \<Rightarrow> error + (routine \<times> store)" where
  "repeatOps opts 0 ops s = Inr s"
| "repeatOps opts (Suc n) ops s =
     (case runOps opts ops s of Inl e \<Rightarrow> Inl e | Inr s' \<Rightarrow> repeatOps opts n ops s')"

text \<open>The locks a routine holds: the first \<open>holdingCount\<close> entries of its holding set.\<close>

definition heldLocks :: "routine \<Rightarrow> mutexInt list" where
  "heldLocks r = take (holdingCount r) (holdingSet r)"

text \<open>
  The bucket of the dependency index that updateLock searches when the routine acquires \<open>m\<close>,
  and whether it holds a dependency with the same lock, the same holding count and the same
  holding set up to that count.
\<close>

definition bucketKey :: "store \<Rightarrow> routine \<Rightarrow> mutexInt \<Rightarrow> 64 word" where
  "bucketKey st r m =
     memoryPosition (locks st m) XOR memoryPosition (locks st (holdingSet r ! (holdingCount r - 1)))"

definition bucketHasDependency :: "store \<Rightarrow> routine \<Rightarrow> mutexInt \<Rightarrow> bool" where
  "bucketHasDependency st r m \<longleftrightarrow>
     (\<exists>depList. dependencyMap r (bucketKey st r m) = Some depList \<and>
        (\<exists>p\<in>set depList.
           depMu (depObjs st p) = m \<and> depHoldingCount (depObjs st p) = holdingCount r \<and>
           (\<forall>i<holdingCount r. depHoldingSet (depObjs st p) ! i = holdingSet r ! i)))"

text \<open>
  What newRoutine and the operations of this file establish and keep: the holding set has
  \<open>maxNumberOfDependentLocks\<close> slots, the holding count stays within them, and every
  dependency in the index was allocated and has a holding set longer than its count.
\<close>

definition routineInv :: "options \<Rightarrow> routine \<times> store \<Rightarrow> bool" where
  "routineInv opts s \<longleftrightarrow>
     length (holdingSet (fst s)) = maxNumberOfDependentLocks opts \<and>
     holdingCount (fst s) \<le> maxNumberOfDependentLocks opts \<and>
     (\<forall>key depList. dependencyMap (fst s) key = Some depList \<longrightarrow>
        (\<forall>p\<in>set depList. p < depNext (snd s) \<and>
           depHoldingCount (depObjs (snd s) p) < length (depHoldingSet (depObjs (snd s) p))))"

text \<open>
  Two relations used to compare runs. \<open>storeExtends s t\<close>: the state \<open>t\<close> has every index
  entry and every dependency object of \<open>s\<close>, and the locks sit at the same memory positions.
  \<open>covers s m held\<close>: the index of \<open>s\<close> has, in the bucket for \<open>m\<close> and the top of \<open>held\<close>, a
  dependency for acquiring \<open>m\<close> while holding exactly \<open>held\<close>.
\<close>

definition storeExtends :: "routine \<times> store \<Rightarrow> routine \<times> store \<Rightarrow> bool" where
  "storeExtends s t \<longleftrightarrow>
     (\<forall>key depList. dependencyMap (fst s) key = Some depList \<longrightarrow>
        (\<exists>depList'. dependencyMap (fst t) key = Some depList' \<and> set depList \<subseteq> set depList')) \<and>
     (\<forall>p<depNext (snd s). depObjs (snd t) p = depObjs (snd s) p) \<and>
     depNext (snd s) \<le> depNext (snd t) \<and>
     (\<forall>m. memoryPosition (locks (snd t) m) = memoryPosition (locks (snd s) m))"

definition covers :: "routine \<times> store \<Rightarrow> mutexInt \<Rightarrow> mutexInt list \<Rightarrow> bool" where
  "covers s m held \<longleftrightarrow>
     held \<noteq> [] \<and>
     (\<exists>depList p.
        dependencyMap (fst s)
          (memoryPosition (locks (snd s) m) XOR memoryPosition (locks (snd s) (last held))) = Some depList \<and>
        p \<in> set depList \<and> p < depNext (snd s) \<and>
        depMu (depObjs (snd s) p) = m \<and> depHoldingCount (depObjs (snd s) p) = length held \<and>
        (\<forall>i<length held. depHoldingSet (depObjs (snd s) p) ! i = held ! i))"

section \<open>The detector state and the wrapped primitives\<close>

text \<open>
  The locks \<^verbatim>\<open>sync.Mutex\<close> and \<^verbatim>\<open>sync.RWMutex\<close> belong to the Go standard library. A
  \<^verbatim>\<open>sync.Mutex\<close> is locked or not; a \<^verbatim>\<open>sync.RWMutex\<close> has a writer or a number of
  readers. \<^verbatim>\<open>Lock\<close> and \<^verbatim>\<open>RLock\<close> on a lock that is not free do not return (the value
  \<open>Blocked\<close>), \<^verbatim>\<open>TryLock\<close> and \<^verbatim>\<open>TryRLock\<close> return false instead, and unlocking a lock
  that is not locked is a fatal error of the runtime.
\<close>

record rwState =
  writer :: bool
  readers :: nat

text \<open>
  The global variables of routine.go (\<^verbatim>\<open>routines\<close>, \<^verbatim>\<open>numberRoutines\<close>, \<^verbatim>\<open>mapIndex\<close>),
  the store of lock and dependency objects, and the state of the wrapped primitives.
\<close>

record detector =
  routines :: "routine list"
  numberRoutines :: nat
  mapIndex :: "int \<rightharpoonup> int"
  heap :: store
  syncMutexes :: "addr \<Rightarrow> bool"
  syncRWMutexes :: "addr \<Rightarrow> rwState"

text \<open>
  \<^verbatim>\<open>d, l, t := m.getLock(); if d { l.Lock() } else { if rLock { t.RLock() } else { t.Lock() } }\<close>
\<close>

definition primLock :: "detector \<Rightarrow> mutexInt \<Rightarrow> bool \<Rightarrow> error + detector" where
  "primLock s m rLock =
     (case getLock (locks (heap s)) m of
        Inl e \<Rightarrow> Inl e
      | Inr (d, l, t) \<Rightarrow>
          if d then
            (case l of
               None \<Rightarrow> Inl NilDereference
             | Some a \<Rightarrow>
                 if syncMutexes s a then Inl Blocked
                 else Inr (s\<lparr>syncMutexes := (syncMutexes s)(a := True)\<rparr>))
          else
            (case t of
               None \<Rightarrow> Inl NilDereference
             | Some a \<Rightarrow>
                 if rLock then
                   (if writer (syncRWMutexes s a) then Inl Blocked
                    else Inr (s\<lparr>syncRWMutexes := (syncRWMutexes s)
                           (a := (syncRWMutexes s a)\<lparr>readers := readers (syncRWMutexes s a) + 1\<rparr>)\<rparr>))
                 else
                   (if writer (syncRWMutexes s a) \<or> 0 < readers (syncRWMutexes s a) then Inl Blocked
                    else Inr (s\<lparr>syncRWMutexes := (syncRWMutexes s)
                           (a := (syncRWMutexes s a)\<lparr>writer := True\<rparr>)\<rparr>))))"

text \<open>
  \<^verbatim>\<open>if d { res = l.TryLock() } else { if rLock { res = t.TryRLock() } else { res = t.TryLock() } }\<close>
\<close>

definition primTryLock :: "detector \<Rightarrow> mutexInt \<Rightarrow> bool \<Rightarrow> error + (bool \<times> detector)" where
  "primTryLock s m rLock =
     (case getLock (locks (heap s)) m of
        Inl e \<Rightarrow> Inl e
      | Inr (d, l, t) \<Rightarrow>
          if d then
            (case l of
               None \<Rightarrow> Inl NilDereference
             | Some a \<Rightarrow>
                 if syncMutexes s a then Inr (False, s)
                 else Inr (True, s\<lparr>syncMutexes := (syncMutexes s)(a := True)\<rparr>))
          else
            (case t of
               None \<Rightarrow> Inl NilDereference
             | Some a \<Rightarrow>
                 if rLock then
                   (if writer (syncRWMutexes s a) then Inr (False, s)
                    else Inr (True, s\<lparr>syncRWMutexes := (syncRWMutexes s)
                           (a := (syncRWMutexes s a)\<lparr>readers := readers (syncRWMutexes s a) + 1\<rparr>)\<rparr>))
                 else
                   (if writer (syncRWMutexes s a) \<or> 0 < readers (syncRWMutexes s a) then Inr (False, s)
                    else Inr (True, s\<lparr>syncRWMutexes := (syncRWMutexes s)
                           (a := (syncRWMutexes s a)\<lparr>writer := True\<rparr>)\<rparr>))))"

text \<open>\<^verbatim>\<open>m.mu.Unlock()\<close> of a \<^verbatim>\<open>sync.Mutex\<close>, \<^verbatim>\<open>m.mu.Unlock()\<close> and \<^verbatim>\<open>m.mu.RUnlock()\<close> of a \<^verbatim>\<open>sync.RWMutex\<close>.\<close>

definition syncMutexUnlock :: "detector \<Rightarrow> addr \<Rightarrow> error + detector" where
  "syncMutexUnlock s a =
     (if syncMutexes s a then Inr (s\<lparr>syncMutexes := (syncMutexes s)(a := False)\<rparr>)
      else Inl FatalUnlockOfUnlocked)"

definition syncRWMutexUnlock :: "detector \<Rightarrow> addr \<Rightarrow> error + detector" where
  "syncRWMutexUnlock s a =
     (if writer (syncRWMutexes s a) then
        Inr (s\<lparr>syncRWMutexes := (syncRWMutexes s)(a := (syncRWMutexes s a)\<lparr>writer := False\<rparr>)\<rparr>)
      else Inl FatalUnlockOfUnlocked)"

definition syncRWMutexRUnlock :: "detector \<Rightarrow> addr \<Rightarrow> error + detector" where
  "syncRWMutexRUnlock s a =
     (if 0 < readers (syncRWMutexes s a) then
        Inr (s\<lparr>syncRWMutexes := (syncRWMutexes s)
               (a := (syncRWMutexes s a)\<lparr>readers := readers (syncRWMutexes s a) - 1\<rparr>)\<rparr>)
      else Inl FatalUnlockOfUnlocked)"

section \<open>routine.go: newRoutine, getRoutineIndex, checkDoubleLocking\<close>

text \<open>
  \<open>g\<close> is the id of the calling go routine (\<^verbatim>\<open>goid.Get()\<close>). \<^verbatim>\<open>newRoutine\<close> returns without
  registering anything when both detections are disabled.
\<close>

definition newRoutine :: "options \<Rightarrow> int \<Rightarrow> detector \<Rightarrow> error + detector" where
  "newRoutine opts g s =
     (if \<not> periodicDetection opts \<and> \<not> comprehensiveDetection opts then Inr s
      else
        let r = \<lparr>index = int (numberRoutines s),
                 holdingCount = 0,
                 holdingSet = replicate (maxNumberOfDependentLocks opts) NilMutex,
                 dependencyMap = Map.empty,
                 dependencies = replicate (maxDependencies opts) None,
                 curDep = None,
                 depCount = 0,
                 collectedSingleLevelLocks = Map.empty\<rparr>
        in
        if maxRoutines opts \<le> numberRoutines s then Inl PanicMaxRoutines
        else if length (routines s) \<le> numberRoutines s then Inl IndexOutOfRange
        else Inr (s\<lparr>routines := (routines s)[numberRoutines s := r],
                     mapIndex := (mapIndex s)(g \<mapsto> int (numberRoutines s)),
                     numberRoutines := numberRoutines s + 1\<rparr>))"

definition getRoutineIndex :: "detector \<Rightarrow> int \<Rightarrow> int" where
  "getRoutineIndex s g = (case mapIndex s g of None \<Rightarrow> - 1 | Some i \<Rightarrow> i)"

text \<open>Reading a Go map of integers: a missing key reads as 0.\<close>

definition lockedBy :: "lockObj \<Rightarrow> int \<Rightarrow> int" where
  "lockedBy l routineIndex = (case isLockedRoutineIndex l routineIndex of None \<Rightarrow> 0 | Some n \<Rightarrow> n)"

text \<open>
  \<^verbatim>\<open>func (r *routine) checkDoubleLocking(m mutexInt, routineIndex int, rLock bool)\<close>. Before
  \<^verbatim>\<open>os.Exit(2)\<close> the function prints the report, which reads \<^verbatim>\<open>context[0]\<close>, and runs
  \<^verbatim>\<open>FindPotentialDeadlocks\<close>, which only prints.
\<close>

definition routineCheckDoubleLocking :: "lockStore \<Rightarrow> mutexInt \<Rightarrow> int \<Rightarrow> bool \<Rightarrow> error + unit" where
  "routineCheckDoubleLocking ls m routineIndex rLock =
     (if m = NilMutex then Inl NilDereference
      else if lockedBy (ls m) routineIndex = 0 then Inr ()
      else
        (case (if rLock then getRLock ls m routineIndex else Inr False) of
           Inl e \<Rightarrow> Inl e
         | Inr bothReaders \<Rightarrow>
             if bothReaders then Inr ()
             else if lockContext (ls m) = [] then Inl IndexOutOfRange
             else Inl (Exit 2)))"

section \<open>mutexInt.go: lockInt, tryLockInt, unlockInt\<close>

text \<open>Helpers for the updates of the counters of a lock.\<close>

definition addNumberLocked :: "mutexInt \<Rightarrow> int \<Rightarrow> detector \<Rightarrow> detector" where
  "addNumberLocked m k s =
     s\<lparr>heap := (heap s)\<lparr>locks := (locks (heap s))
        (m := (locks (heap s) m)\<lparr>numberLocked := numberLocked (locks (heap s) m) + k\<rparr>)\<rparr>\<rparr>"

definition addLockedBy :: "mutexInt \<Rightarrow> int \<Rightarrow> int \<Rightarrow> detector \<Rightarrow> detector" where
  "addLockedBy m routineIndex k s =
     s\<lparr>heap := (heap s)\<lparr>locks := (locks (heap s))
        (m := (locks (heap s) m)\<lparr>isLockedRoutineIndex :=
           (isLockedRoutineIndex (locks (heap s) m))
             (routineIndex \<mapsto> lockedBy (locks (heap s) m) routineIndex + k)\<rparr>)\<rparr>\<rparr>"

text \<open>
  The part of lockInt between the \<^verbatim>\<open>defer\<close> and the return, reached when one of the
  detections is enabled. \<open>numRoutine\<close> is \<^verbatim>\<open>runtime.NumGoroutine()\<close>.
\<close>

definition lockIntBookkeeping :: "options \<Rightarrow> int \<Rightarrow> nat \<Rightarrow> callSite \<Rightarrow> mutexInt \<Rightarrow> bool \<Rightarrow> detector \<Rightarrow> error + detector" where
  "lockIntBookkeeping opts g numRoutine site m rLock s =
     (case (if getRoutineIndex s g = - 1 then newRoutine opts g s else Inr s) of
        Inl e \<Rightarrow> Inl e
      | Inr s1 \<Rightarrow>
          let index = getRoutineIndex s1 g in
          if index < 0 \<or> int (length (routines s1)) \<le> index then Inl IndexOutOfRange
          else
            (case (if checkDoubleLocking opts \<and> numberLocked (locks (heap s1) m) \<noteq> 0
                   then routineCheckDoubleLocking (locks (heap s1)) m index rLock
                   else Inr ()) of
               Inl e \<Rightarrow> Inl e
             | Inr _ \<Rightarrow>
                 let s2 = addLockedBy m index 1 s1 in
                 if 1 < numRoutine then
                   (case updateLock opts site m rLock (routines s2 ! nat index) (heap s2) of
                      Inl e \<Rightarrow> Inl e
                    | Inr (r', st') \<Rightarrow>
                        Inr (s2\<lparr>routines := (routines s2)[nat index := r'], heap := st'\<rparr>))
                 else Inr s2))"

text \<open>
  lockInt. The deferred function locks the primitive and increments \<^verbatim>\<open>numberLocked\<close>; it
  runs when the function returns and when it panics, not when the process exits.
\<close>

definition lockInt :: "options \<Rightarrow> int \<Rightarrow> nat \<Rightarrow> callSite \<Rightarrow> mutexInt \<Rightarrow> bool \<Rightarrow> detector \<Rightarrow> error + detector" where
  "lockInt opts g numRoutine site m rLock s =
     (if \<not> activated opts then primLock s m rLock
      else if m = NilMutex then Inl NilDereference
      else if \<not> inited (locks (heap s) m) then Inl PanicNotCreated
      else
        (case (if \<not> periodicDetection opts \<and> \<not> comprehensiveDetection opts then Inr s
               else lockIntBookkeeping opts g numRoutine site m rLock s) of
           Inl (Exit c) \<Rightarrow> Inl (Exit c)
         | Inl e \<Rightarrow> (case primLock s m rLock of Inl Blocked \<Rightarrow> Inl Blocked | _ \<Rightarrow> Inl e)
         | Inr s1 \<Rightarrow>
             (case primLock s1 m rLock of
                Inl e \<Rightarrow> Inl e
              | Inr s2 \<Rightarrow> Inr (addNumberLocked m 1 s2))))"

text \<open>
  tryLockInt. The routine index found after a successful try is a variable of the inner
  block (\<^verbatim>\<open>index := getRoutineIndex()\<close>); the variable \<^verbatim>\<open>index\<close> declared before the block
  keeps its initial value 0, and it is the one used in \<^verbatim>\<open>r := &routines[index]\<close>.
\<close>

definition tryLockInt :: "options \<Rightarrow> int \<Rightarrow> nat \<Rightarrow> mutexInt \<Rightarrow> bool \<Rightarrow> detector \<Rightarrow> error + (bool \<times> detector)" where
  "tryLockInt opts g numRoutine m rLock s =
     (if \<not> activated opts then primTryLock s m rLock
      else if m = NilMutex then Inl NilDereference
      else if \<not> inited (locks (heap s) m) then Inl PanicNotCreated
      else
        (case primTryLock s m rLock of
           Inl e \<Rightarrow> Inl e
         | Inr (res, s1) \<Rightarrow>
             let index = (0 :: nat) in
             (case (if res then
                      (case (if getRoutineIndex s1 g = - 1 then newRoutine opts g s1 else Inr s1) of
                         Inl e \<Rightarrow> Inl e
                       | Inr s2 \<Rightarrow>
                           Inr (addLockedBy m (getRoutineIndex s2 g) 1 (addNumberLocked m 1 s2)))
                    else Inr s1) of
                Inl e \<Rightarrow> Inl e
              | Inr s3 \<Rightarrow>
                  if \<not> periodicDetection opts \<and> \<not> comprehensiveDetection opts then Inr (res, s3)
                  else if 1 < numRoutine \<and> res then
                    (if length (routines s3) \<le> index then Inl IndexOutOfRange
                     else
                       (case updateTryLock opts m rLock (routines s3 ! index) (heap s3) of
                          Inl e \<Rightarrow> Inl e
                        | Inr (r', st') \<Rightarrow>
                            Inr (res, s3\<lparr>routines := (routines s3)[index := r'], heap := st'\<rparr>)))
                  else Inr (res, s3))))"

text \<open>
  unlockInt. The deferred function decrements \<^verbatim>\<open>numberLocked\<close> and the entry of the calling
  routine in \<^verbatim>\<open>isLockedRoutineIndex\<close>.
\<close>

definition unlockInt :: "options \<Rightarrow> int \<Rightarrow> mutexInt \<Rightarrow> detector \<Rightarrow> error + detector" where
  "unlockInt opts g m s =
     (if m = NilMutex then Inl NilDereference
      else if \<not> inited (locks (heap s) m) then Inl PanicNotCreated
      else if numberLocked (locks (heap s) m) = 0 then Inl PanicNotLocked
      else
        (case (if \<not> periodicDetection opts \<and> \<not> comprehensiveDetection opts then Inr s
               else
                 let index = getRoutineIndex s g in
                 if index < 0 \<or> int (length (routines s)) \<le> index then Inl IndexOutOfRange
                 else
                   (case updateUnlock m (routines s ! nat index) of
                      Inl e \<Rightarrow> Inl e
                    | Inr r' \<Rightarrow> Inr (s\<lparr>routines := (routines s)[nat index := r']\<rparr>))) of
           Inl e \<Rightarrow> Inl e
         | Inr s1 \<Rightarrow> Inr (addLockedBy m (getRoutineIndex s1 g) (- 1) (addNumberLocked m (- 1) s1))))"

section \<open>mutex.go and rwMutex.go: the exported operations\<close>

text \<open>
  The methods of \<^verbatim>\<open>*Mutex\<close> and \<^verbatim>\<open>*RWMutex\<close>; \<open>a\<close> is the receiver. RTryLock calls
  \<^verbatim>\<open>tryLockInt(m, false)\<close>, as TryLock does.
\<close>

definition Mutex_Lock :: "options \<Rightarrow> int \<Rightarrow> nat \<Rightarrow> callSite \<Rightarrow> addr \<Rightarrow> detector \<Rightarrow> error + detector" where
  "Mutex_Lock opts g numRoutine site a s = lockInt opts g numRoutine site (MutexPtr a) False s"

definition Mutex_TryLock :: "options \<Rightarrow> int \<Rightarrow> nat \<Rightarrow> addr \<Rightarrow> detector \<Rightarrow> error + (bool \<times> detector)" where
  "Mutex_TryLock opts g numRoutine a s = tryLockInt opts g numRoutine (MutexPtr a) False s"

definition Mutex_Unlock :: "options \<Rightarrow> int \<Rightarrow> addr \<Rightarrow> detector \<Rightarrow> error + detector" where
  "Mutex_Unlock opts g a s =
     (case (if activated opts then unlockInt opts g (MutexPtr a) s else Inr s) of
        Inl e \<Rightarrow> Inl e
      | Inr s1 \<Rightarrow> syncMutexUnlock s1 (mu (locks (heap s1) (MutexPtr a))))"

definition RWMutex_Lock :: "options \<Rightarrow> int \<Rightarrow> nat \<Rightarrow> callSite \<Rightarrow> addr \<Rightarrow> detector \<Rightarrow> error + detector" where
  "RWMutex_Lock opts g numRoutine site a s = lockInt opts g numRoutine site (RWMutexPtr a) False s"

definition RWMutex_RLock :: "options \<Rightarrow> int \<Rightarrow> nat \<Rightarrow> callSite \<Rightarrow> addr \<Rightarrow> detector \<Rightarrow> error + detector" where
  "RWMutex_RLock opts g numRoutine site a s = lockInt opts g numRoutine site (RWMutexPtr a) True s"

definition RWMutex_TryLock :: "options \<Rightarrow> int \<Rightarrow> nat \<Rightarrow> addr \<Rightarrow> detector \<Rightarrow> error + (bool \<times> detector)" where
  "RWMutex_TryLock opts g numRoutine a s =
     (let res = tryLockInt opts g numRoutine (RWMutexPtr a) False s in res)"

definition RWMutex_RTryLock :: "options \<Rightarrow> int \<Rightarrow> nat \<Rightarrow> addr \<Rightarrow> detector \<Rightarrow> error + (bool \<times> detector)" where
  "RWMutex_RTryLock opts g numRoutine a s =
     (let res = tryLockInt opts g numRoutine (RWMutexPtr a) False s in res)"

definition RWMutex_Unlock :: "options \<Rightarrow> int \<Rightarrow> addr \<Rightarrow> detector \<Rightarrow> error + detector" where
  "RWMutex_Unlock opts g a s =
     (case (if activated opts then unlockInt opts g (RWMutexPtr a) s else Inr s) of
        Inl e \<Rightarrow> Inl e
      | Inr s1 \<Rightarrow> syncRWMutexUnlock s1 (mu (locks (heap s1) (RWMutexPtr a))))"

definition RWMutex_RUnlock :: "options \<Rightarrow> int \<Rightarrow> addr \<Rightarrow> detector \<Rightarrow> error + detector" where
  "RWMutex_RUnlock opts g a s =
     (case (if activated opts then unlockInt opts g (RWMutexPtr a) s else Inr s) of
        Inl e \<Rightarrow> Inl e
      | Inr s1 \<Rightarrow> syncRWMutexRUnlock s1 (mu (locks (heap s1) (RWMutexPtr a))))"

section \<open>initialize.go\<close>

text \<open>
  \<^verbatim>\<open>routines = make([]routine, opts.maxRoutines)\<close>: every slot is a zero-valued routine.
  The detector starts with no routine registered and every primitive free.
\<close>

definition zeroRoutine :: routine where
  "zeroRoutine = \<lparr>index = 0, holdingCount = 0, holdingSet = [], dependencyMap = Map.empty,
     dependencies = [], curDep = None, depCount = 0, collectedSingleLevelLocks = Map.empty\<rparr>"

definition initialize :: "options \<Rightarrow> store \<Rightarrow> detector" where
  "initialize opts st =
     \<lparr>routines = replicate (maxRoutines opts) zeroRoutine,
      numberRoutines = 0,
      mapIndex = Map.empty,
      heap = st,
      syncMutexes = (\<lambda>a. False),
      syncRWMutexes = (\<lambda>a. \<lparr>writer = False, readers = 0\<rparr>)\<rparr>"

section \<open>The registry of routines and the holds of a lock\<close>

text \<open>
  \<open>routineIndexOf s g\<close> is the index under which lockInt finds the calling go routine: the
  registered one, or the next free index, which newRoutine gives to a go routine that is
  not registered yet. \<open>registryOk\<close> is what newRoutine establishes and the operations keep:
  registered indices are below \<open>numberRoutines\<close>, a routine carries its own index, and two
  go routines never share an index. \<open>notHeld\<close>: the counters of the lock say that nobody
  holds it.
\<close>

definition routineIndexOf :: "detector \<Rightarrow> int \<Rightarrow> int" where
  "routineIndexOf s g = (case mapIndex s g of None \<Rightarrow> int (numberRoutines s) | Some i \<Rightarrow> i)"

definition registryOk :: "detector \<Rightarrow> bool" where
  "registryOk s \<longleftrightarrow>
     numberRoutines s \<le> length (routines s) \<and>
     (\<forall>g i. mapIndex s g = Some i \<longrightarrow>
        0 \<le> i \<and> nat i < numberRoutines s \<and> index (routines s ! nat i) = i) \<and>
     (\<forall>g g' i. mapIndex s g = Some i \<and> mapIndex s g' = Some i \<longrightarrow> g = g')"

definition notHeld :: "detector \<Rightarrow> mutexInt \<Rightarrow> bool" where
  "notHeld s m \<longleftrightarrow>
     numberLocked (locks (heap s) m) = 0 \<and> (\<forall>i. lockedBy (locks (heap s) m) i = 0)"

section \<open>Sequences of try-lock and unlock operations\<close>

text \<open>
  An event is an exported try-lock or unlock operation on the lock at an address, called
  by the go routine with id \<open>evRoutine\<close> while \<open>evNumRoutine\<close> go routines are running.
  A run stops at the first panic; the result of a try-lock is not looked at.
\<close>

datatype tryOp =
    MutexTryLock addr | RWMutexTryLock addr | RWMutexRTryLock addr
  | MutexUnlock addr | RWMutexUnlock addr | RWMutexRUnlock addr

record tryEvent =
  evRoutine :: int
  evNumRoutine :: nat
  evOp :: tryOp

definition dropResult :: "error + (bool \<times> detector) \<Rightarrow> error + detector" where
  "dropResult x = (case x of Inl e \<Rightarrow> Inl e | Inr (res, s) \<Rightarrow> Inr s)"

definition stepTryEvent :: "options \<Rightarrow> tryEvent \<Rightarrow> detector \<Rightarrow> error + detector" where
  "stepTryEvent opts ev s =
     (case evOp ev of
        MutexTryLock a \<Rightarrow> dropResult (Mutex_TryLock opts (evRoutine ev) (evNumRoutine ev) a s)
      | RWMutexTryLock a \<Rightarrow> dropResult (RWMutex_TryLock opts (evRoutine ev) (evNumRoutine ev) a s)
      | RWMutexRTryLock a \<Rightarrow> dropResult (RWMutex_RTryLock opts (evRoutine ev) (evNumRoutine ev) a s)
      | MutexUnlock a \<Rightarrow> Mutex_Unlock opts (evRoutine ev) a s
      | RWMutexUnlock a \<Rightarrow> RWMutex_Unlock opts (evRoutine ev) a s
      | RWMutexRUnlock a \<Rightarrow> RWMutex_RUnlock opts (evRoutine ev) a s)"

fun runTryEvents :: "options \<Rightarrow> tryEvent list \<Rightarrow> detector \<Rightarrow> error + detector" where
  "runTryEvents opts [] s = Inr s"
| "runTryEvents opts (ev # evs) s =
     (case stepTryEvent opts ev s of Inl e \<Rightarrow> Inl e | Inr s' \<Rightarrow> runTryEvents opts evs s')"

text \<open>
  A routine keeps its lock tree, or is a routine newly created with an empty one; no
  dependency object is allocated between two states and every routine keeps its lock tree.
\<close>

definition keepsLockTree :: "routine \<Rightarrow> routine \<Rightarrow> bool" where
  "keepsLockTree r r' \<longleftrightarrow>
     (dependencies r' = dependencies r \<and> depCount r' = depCount r \<and>
      dependencyMap r' = dependencyMap r \<and> curDep r' = curDep r) \<or>
     (depCount r' = 0 \<and> dependencyMap r' = Map.empty \<and> curDep r' = None \<and>
      set (dependencies r') \<subseteq> {None})"

definition noNewDependency :: "detector \<Rightarrow> detector \<Rightarrow> bool" where
  "noNewDependency s s' \<longleftrightarrow>
     depObjs (heap s') = depObjs (heap s) \<and> depNext (heap s') = depNext (heap s) \<and>
     length (routines s') = length (routines s) \<and>
     (\<forall>i<length (routines s). keepsLockTree (routines s ! i) (routines s' ! i))"

section \<open>detector.go: the periodical detection\<close>


text \<open>
  The check, in dfsPeriodical, whether the top of the holding set of a routine in the chain
  differs from \<^verbatim>\<open>lastHolding\<close>: the body of the loop over the stack, for the element \<open>cl\<close>.
\<close>

definition chainChanged :: "detector \<Rightarrow> mutexInt list \<Rightarrow> stackElement \<Rightarrow> error + bool" where
  "chainChanged s lastHolding cl =
     (if stackIndex cl < 0 \<or> int (length (routines s)) \<le> stackIndex cl then Inl IndexOutOfRange
      else
        let routineInChain = routines s ! nat (stackIndex cl);
            holds = int (holdingCount routineInChain) - 1
        in
        if length lastHolding \<le> nat (stackIndex cl) then Inl IndexOutOfRange
        else if 0 \<le> holds then
          (if length (holdingSet routineInChain) \<le> nat holds then Inl IndexOutOfRange
           else Inr (lastHolding ! nat (stackIndex cl) \<noteq> holdingSet routineInChain ! nat holds))
        else Inr (lastHolding ! nat (stackIndex cl) \<noteq> NilMutex))"

text \<open>
  dfsPeriodical: the loop \<^verbatim>\<open>for i := visiting + 1; i < numberRoutines; i++\<close> from \<open>i\<close> on,
  with the stack and \<^verbatim>\<open>isTraversed\<close> threaded through. The recursion is bounded by fuel;
  every iteration and every recursive call takes one unit. The third component of the
  state records, for every recursive call, the stack and \<^verbatim>\<open>isTraversed\<close> it is entered with;
  it is not part of the source and does not influence the search. The detector state is
  only read.
\<close>

type_synonym dfsState = "depStack \<times> bool list \<times> (depStack \<times> bool list) list"

fun dfsPeriodicalFrom :: "nat \<Rightarrow> detector \<Rightarrow> mutexInt list \<Rightarrow> nat \<Rightarrow> nat \<Rightarrow> dfsState \<Rightarrow> error + dfsState" where
  "dfsPeriodicalFrom 0 s lastHolding visiting i st = Inl OutOfFuel"
| "dfsPeriodicalFrom (Suc fuel) s lastHolding visiting i (stk, isTraversed, explored) =
     (if \<not> i < numberRoutines s then Inr (stk, isTraversed, explored)
      else if length (routines s) \<le> i then Inl IndexOutOfRange
      else
        let r = routines s ! i in
        if curDep r = None then
          dfsPeriodicalFrom fuel s lastHolding visiting (Suc i) (stk, isTraversed, explored)
        else if length isTraversed \<le> i then Inl IndexOutOfRange
        else if isTraversed ! i then
          dfsPeriodicalFrom fuel s lastHolding visiting (Suc i) (stk, isTraversed, explored)
        else
          let dep = curDep r in
          (case isChain (locks (heap s)) (depObjs (heap s)) stk dep (int i) of
             Inl e \<Rightarrow> Inl e
           | Inr chainOk \<Rightarrow>
               if \<not> chainOk then
                 dfsPeriodicalFrom fuel s lastHolding visiting (Suc i) (stk, isTraversed, explored)
               else
                 (case isCycleChain (locks (heap s)) (depObjs (heap s)) stk dep (int i) of
                    Inl e \<Rightarrow> Inl e
                  | Inr cyclic \<Rightarrow>
                      if cyclic then
                        (let stk1 = push stk dep (int i) in
                         case existsE (chainChanged s lastHolding) (chain stk1) of
                           Inl e \<Rightarrow> Inl e
                         | Inr sthNew \<Rightarrow>
                             if \<not> sthNew then Inl (Exit 2)
                             else dfsPeriodicalFrom fuel s lastHolding visiting (Suc i)
                                    (pop stk1, isTraversed, explored))
                      else if length isTraversed \<le> numberRoutines s then Inl IndexOutOfRange
                      else
                        (let isTraversed1 = isTraversed[numberRoutines s := True];
                             stk1 = push stk dep (int (numberRoutines s))
                         in
                         case dfsPeriodicalFrom fuel s lastHolding visiting (visiting + 1)
                                (stk1, isTraversed1, explored @ [(stk1, isTraversed1)]) of
                           Inl e \<Rightarrow> Inl e
                         | Inr (stk2, isTraversed2, explored2) \<Rightarrow>
                             dfsPeriodicalFrom fuel s lastHolding visiting (Suc i)
                               (pop stk2, isTraversed2[numberRoutines s := False], explored2)))))"

definition dfsPeriodical :: "nat \<Rightarrow> detector \<Rightarrow> mutexInt list \<Rightarrow> nat \<Rightarrow> dfsState \<Rightarrow> error + dfsState" where
  "dfsPeriodical fuel s lastHolding visiting st =
     dfsPeriodicalFrom fuel s lastHolding visiting (visiting + 1) st"

text \<open>
  detectionPeriodical: the loop over \<^verbatim>\<open>routines\<close> from position \<open>idx\<close> on. The loop
  variable \<^verbatim>\<open>r\<close> is a copy of the routine, so \<^verbatim>\<open>r.curDep = nil\<close> at the end of the body
  changes nothing in \<^verbatim>\<open>routines\<close>.
\<close>

fun detectionPeriodicalFrom :: "nat \<Rightarrow> detector \<Rightarrow> mutexInt list \<Rightarrow> routine list \<Rightarrow> nat \<Rightarrow> dfsState \<Rightarrow> error + dfsState" where
  "detectionPeriodicalFrom fuel s lastHolding [] idx st = Inr st"
| "detectionPeriodicalFrom fuel s lastHolding (r # rs) idx (stk, isTraversed, explored) =
     (if numberRoutines s \<le> idx then Inr (stk, isTraversed, explored)
      else if curDep r = None then
        detectionPeriodicalFrom fuel s lastHolding rs (Suc idx) (stk, isTraversed, explored)
      else if length isTraversed \<le> idx then Inl IndexOutOfRange
      else
        (let isTraversed1 = isTraversed[idx := True];
             stk1 = push stk (curDep r) (int idx)
         in
         case dfsPeriodical fuel s lastHolding idx
                (stk1, isTraversed1, explored @ [(stk1, isTraversed1)]) of
           Inl e \<Rightarrow> Inl e
         | Inr (stk2, isTraversed2, explored2) \<Rightarrow>
             detectionPeriodicalFrom fuel s lastHolding rs (Suc idx)
               (pop stk2, isTraversed2, explored2)))"

definition detectionPeriodical :: "nat \<Rightarrow> options \<Rightarrow> mutexInt list \<Rightarrow> detector \<Rightarrow> error + dfsState" where
  "detectionPeriodical fuel opts lastHolding s =
     detectionPeriodicalFrom fuel s lastHolding (routines s) 0
       (newDepStack, replicate (maxRoutines opts) False, [])"



section \<open>A small configuration used in examples\<close>

text \<open>
  Two dependent locks, two dependencies per routine and two routines at most; every lock
  has a creation record and sits at the memory position given by its address; a routine as
  newRoutine creates it; the pattern lock 1, lock 2, unlock 2, unlock 1; the detector as
  initialised.
\<close>

definition exOpts :: options where
  "exOpts = defaultOpts\<lparr>maxNumberOfDependentLocks := 2, maxDependencies := 2, maxRoutines := 2\<rparr>"

definition exStore :: store where
  "exStore = \<lparr>locks = (\<lambda>m. \<lparr>mu = (case m of MutexPtr a \<Rightarrow> a | RWMutexPtr a \<Rightarrow> a | NilMutex \<Rightarrow> 0),
                  lockContext = [newInfo ''main.go'' 5 True []], inited = True, numberLocked = 0,
                  isLockedRoutineIndex = Map.empty,
                  memoryPosition = (case m of MutexPtr a \<Rightarrow> of_nat a | RWMutexPtr a \<Rightarrow> of_nat a | NilMutex \<Rightarrow> 0),
                  isRLock = Map.empty\<rparr>),
               depObjs = (\<lambda>p. \<lparr>depMu = NilMutex, depHoldingSet = [], depHoldingCount = 0\<rparr>),
               depNext = 0\<rparr>"

definition exRoutine :: routine where
  "exRoutine = \<lparr>index = 0, holdingCount = 0, holdingSet = [NilMutex, NilMutex],
      dependencyMap = Map.empty, dependencies = [None, None], curDep = None, depCount = 0,
      collectedSingleLevelLocks = Map.empty\<rparr>"

definition exSite :: callSite where
  "exSite = \<lparr>siteFile = ''main.go'', siteLine = 10, siteStack = []\<rparr>"

definition exOps :: "lockOp list" where
  "exOps = [OpLock (MutexPtr 1) False exSite, OpLock (MutexPtr 2) False exSite,
            OpUnlock (MutexPtr 2), OpUnlock (MutexPtr 1)]"


definition exDetector :: detector where
  "exDetector = initialize exOpts exStore"

text \<open>The same options with the periodical detection disabled.\<close>

definition exCompOpts :: options where
  "exCompOpts = exOpts\<lparr>periodicDetection := False\<rparr>"


definition exChainOpts :: options where
  "exChainOpts = exOpts\<lparr>maxRoutines := 4\<rparr>"

definition exChainRoutine :: "nat \<Rightarrow> routine" where
  "exChainRoutine i = exRoutine
     \<lparr>index := int i, holdingCount := 2,
      holdingSet := [MutexPtr (i + 1), MutexPtr (i + 2)],
      dependencies := [Some i, None], curDep := Some i, depCount := 1\<rparr>"

definition exChain :: detector where
  "exChain = (initialize exChainOpts
       (exStore\<lparr>depObjs := (\<lambda>p. \<lparr>depMu = MutexPtr (p + 2),
                                  depHoldingSet = [MutexPtr (p + 1), NilMutex, MutexPtr (p + 1)],
                                  depHoldingCount = 1\<rparr>),
                depNext := 3\<rparr>))
     \<lparr>routines := [exChainRoutine 0, exChainRoutine 1, exChainRoutine 2, zeroRoutine],
      numberRoutines := 3\<rparr>"

section \<open>Properties of updateUnlock\<close>

lemma updateUnlockFrom_absent:
  "n \<le> length (holdingSet r) \<Longrightarrow> \<forall>j<n. holdingSet r ! j \<noteq> m \<Longrightarrow> updateUnlockFrom m r n = Inr r"
  by (induction n) auto

lemma updateUnlockFrom_topmost:
  "n \<le> length (holdingSet r) \<Longrightarrow> i < n \<Longrightarrow> holdingSet r ! i = m \<Longrightarrow>
   \<forall>j. i < j \<and> j < n \<longrightarrow> holdingSet r ! j \<noteq> m \<Longrightarrow>
   updateUnlockFrom m r n =
     Inr (r\<lparr>holdingSet := take i (holdingSet r) @ drop (Suc i) (holdingSet r) @ [NilMutex],
            holdingCount := holdingCount r - 1\<rparr>)"
proof (induction n)
  case 0
  then show ?case by simp
next
  case (Suc n)
  show ?case
  proof (cases "i = n")
    case True
    with Suc.prems show ?thesis by simp
  next
    case False
    with Suc.prems have "i < n" and "holdingSet r ! n \<noteq> m" by auto
    with Suc show ?thesis by simp
  qed
qed

text \<open>
  Claim C6. On a routine whose holding count does not exceed the length of its holding
  set: if \<open>m\<close> is not among \<open>holdingSet[0..holdingCount)\<close>, updateUnlock returns the routine
  unchanged; otherwise, with \<open>i\<close> the topmost position of \<open>m\<close>, it returns the routine
  with exactly that entry spliced out (the entries before and after \<open>i\<close> keep their order,
  a nil fills the end), \<open>holdingCount\<close> decremented by one and every other field as it was.
\<close>

theorem updateUnlock_removes_topmost:
  assumes "holdingCount r \<le> length (holdingSet r)"
  shows "((\<forall>j<holdingCount r. holdingSet r ! j \<noteq> m) \<longrightarrow> updateUnlock m r = Inr r) \<and>
         (\<forall>i. i < holdingCount r \<and> holdingSet r ! i = m \<and>
              (\<forall>j. i < j \<and> j < holdingCount r \<longrightarrow> holdingSet r ! j \<noteq> m) \<longrightarrow>
         (\<exists>r'. updateUnlock m r = Inr r' \<and>
            holdingCount r' = holdingCount r - 1 \<and>
            holdingSet r' = take i (holdingSet r) @ drop (Suc i) (holdingSet r) @ [NilMutex] \<and>
            take (holdingCount r') (holdingSet r') =
              take i (holdingSet r) @ drop (Suc i) (take (holdingCount r) (holdingSet r)) \<and>
            length (holdingSet r') = length (holdingSet r) \<and>
            routine.more r' = routine.more r \<and> index r' = index r \<and>
            dependencyMap r' = dependencyMap r \<and> dependencies r' = dependencies r \<and>
            curDep r' = curDep r \<and> depCount r' = depCount r \<and>
            collectedSingleLevelLocks r' = collectedSingleLevelLocks r))"
proof (intro conjI allI impI)
  assume "\<forall>j<holdingCount r. holdingSet r ! j \<noteq> m"
  then show "updateUnlock m r = Inr r"
    using assms by (simp add: updateUnlock_def updateUnlockFrom_absent)
next
  fix i
  assume h: "i < holdingCount r \<and> holdingSet r ! i = m \<and>
         (\<forall>j. i < j \<and> j < holdingCount r \<longrightarrow> holdingSet r ! j \<noteq> m)"
  let ?r' = "r\<lparr>holdingSet := take i (holdingSet r) @ drop (Suc i) (holdingSet r) @ [NilMutex],
            holdingCount := holdingCount r - 1\<rparr>"
  have run: "updateUnlock m r = Inr ?r'"
    unfolding updateUnlock_def using assms h by (intro updateUnlockFrom_topmost) auto
  have pre: "take (holdingCount r - 1) (take i (holdingSet r) @ drop (Suc i) (holdingSet r) @ [NilMutex]) =
            take i (holdingSet r) @ drop (Suc i) (take (holdingCount r) (holdingSet r))"
  proof (cases "holdingCount r - 1 \<le> i")
    case True
    with h have "i = holdingCount r - 1" by auto
    with assms h show ?thesis by (simp add: drop_take min_def)
  next
    case False
    with assms h show ?thesis by (simp add: drop_take min_def)
  qed
  have len: "length (take i (holdingSet r) @ drop (Suc i) (holdingSet r) @ [NilMutex]) = length (holdingSet r)"
    using assms h by auto
  show "\<exists>r'. updateUnlock m r = Inr r' \<and>
          holdingCount r' = holdingCount r - 1 \<and>
          holdingSet r' = take i (holdingSet r) @ drop (Suc i) (holdingSet r) @ [NilMutex] \<and>
          take (holdingCount r') (holdingSet r') =
            take i (holdingSet r) @ drop (Suc i) (take (holdingCount r) (holdingSet r)) \<and>
          length (holdingSet r') = length (holdingSet r) \<and>
          routine.more r' = routine.more r \<and> index r' = index r \<and>
          dependencyMap r' = dependencyMap r \<and> dependencies r' = dependencies r \<and>
          curDep r' = curDep r \<and> depCount r' = depCount r \<and>
          collectedSingleLevelLocks r' = collectedSingleLevelLocks r"
    using run pre len by simp
qed

text \<open>
  A routine holding the locks 1, 2, 1 (in that order) releases lock 1: the entry at
  position 2 goes, the entries at positions 0 and 1 stay.
\<close>

theorem updateUnlock_removes_topmost_witness:
  "holdingCount \<lparr>index = 0, holdingCount = 3,
      holdingSet = [MutexPtr 1, MutexPtr 2, MutexPtr 1, NilMutex],
      dependencyMap = Map.empty, dependencies = [], curDep = None, depCount = 0,
      collectedSingleLevelLocks = Map.empty\<rparr>
    \<le> length (holdingSet \<lparr>index = 0, holdingCount = 3,
      holdingSet = [MutexPtr 1, MutexPtr 2, MutexPtr 1, NilMutex],
      dependencyMap = Map.empty, dependencies = [], curDep = None, depCount = 0,
      collectedSingleLevelLocks = Map.empty\<rparr>) \<and>
   (\<exists>r'. updateUnlock (MutexPtr 1) \<lparr>index = 0, holdingCount = 3,
      holdingSet = [MutexPtr 1, MutexPtr 2, MutexPtr 1, NilMutex],
      dependencyMap = Map.empty, dependencies = [], curDep = None, depCount = 0,
      collectedSingleLevelLocks = Map.empty\<rparr> = Inr r' \<and>
      holdingCount r' = 2 \<and>
      holdingSet r' = [MutexPtr 1, MutexPtr 2, NilMutex, NilMutex])"
proof -
  let ?r = "\<lparr>index = 0, holdingCount = 3,
      holdingSet = [MutexPtr 1, MutexPtr 2, MutexPtr 1, NilMutex],
      dependencyMap = Map.empty, dependencies = [], curDep = None, depCount = 0,
      collectedSingleLevelLocks = Map.empty\<rparr>"
  have h: "holdingCount ?r \<le> length (holdingSet ?r)" by simp
  have top: "2 < holdingCount ?r \<and> holdingSet ?r ! 2 = MutexPtr 1 \<and>
       (\<forall>j. 2 < j \<and> j < holdingCount ?r \<longrightarrow> holdingSet ?r ! j \<noteq> MutexPtr 1)"
    by simp
  from updateUnlock_removes_topmost [OF h, of "MutexPtr 1"] top
  obtain r' where "updateUnlock (MutexPtr 1) ?r = Inr r'"
    and "holdingCount r' = holdingCount ?r - 1"
    and "holdingSet r' = take 2 (holdingSet ?r) @ drop (Suc 2) (holdingSet ?r) @ [NilMutex]"
    by blast
  then show ?thesis using h by simp
qed

section \<open>Properties of isChain\<close>

lemma existsE_char:
  "(\<And>x. x \<in> set xs \<Longrightarrow> f x = Inr (P x)) \<Longrightarrow> existsE f xs = Inr (\<exists>x\<in>set xs. P x)"
  by (induction xs) auto

lemma mutexHaveEqualLock_total:
  "m1 \<noteq> NilMutex \<Longrightarrow> m2 \<noteq> NilMutex \<Longrightarrow>
   mutexHaveEqualLock ls m1 m2 = Inr (equalLock ls m1 m2)"
  by (cases m1; cases m2) (auto simp: equalLock_def mutexHaveEqualLock_def getLock_def)

lemma getRLock_total:
  "m \<noteq> NilMutex \<Longrightarrow> getRLock ls m i = Inr (rLocked ls m i)"
  by (cases m) (auto simp: rLocked_def getRLock_def split: option.splits)

lemma bothRLock_total:
  "m1 \<noteq> NilMutex \<Longrightarrow> m2 \<noteq> NilMutex \<Longrightarrow>
   bothRLock ls m1 i1 m2 i2 = Inr (rLocked ls m1 i1 \<and> rLocked ls m2 i2)"
  by (simp add: bothRLock_def getRLock_total)

lemma isChainLink_char:
  assumes "depWellFormed ds dp" and "depEntry (stackTop st) = Some tp" and "depWellFormed ds tp"
    and "i < depHoldingCount (ds dp)"
  shows "isChainLink ls ds st (ds dp) routineIndex i =
           Inr (equalLock ls (depHoldingSet (ds dp) ! i) (depMu (ds tp)) \<and>
                \<not> (rLocked ls (depHoldingSet (ds dp) ! i) routineIndex \<and>
                   rLocked ls (depMu (ds tp)) (stackIndex (stackTop st))))"
proof -
  from assms have a: "depHoldingSet (ds dp) ! i \<noteq> NilMutex" and b: "depMu (ds tp) \<noteq> NilMutex"
    and c: "i < length (depHoldingSet (ds dp))"
    by (auto simp: depWellFormed_def)
  show ?thesis
    using c assms(2)
    by (simp add: isChainLink_def Let_def mutexHaveEqualLock_total [OF a b] bothRLock_total [OF a b])
qed

lemma isChainGate_char:
  assumes "depWellFormed ds dp" and "depEntry c = Some cp" and "depWellFormed ds cp"
    and "i < depHoldingCount (ds dp)" and "j < depHoldingCount (ds cp)"
  shows "isChainGate ls ds c (ds dp) routineIndex i j =
           Inr (equalLock ls (depHoldingSet (ds dp) ! i) (depHoldingSet (ds cp) ! j) \<and>
                \<not> (rLocked ls (depHoldingSet (ds cp) ! j) (stackIndex c) \<and>
                   rLocked ls (depHoldingSet (ds dp) ! i) routineIndex))"
proof -
  from assms have a: "depHoldingSet (ds dp) ! i \<noteq> NilMutex" and b: "depHoldingSet (ds cp) ! j \<noteq> NilMutex"
    and c: "i < length (depHoldingSet (ds dp))" and d: "j < length (depHoldingSet (ds cp))"
    by (auto simp: depWellFormed_def)
  show ?thesis
    using c d assms(2)
    by (simp add: isChainGate_def Let_def mutexHaveEqualLock_total [OF a b] bothRLock_total [OF b a])
qed

lemma isChainElem_char:
  assumes "depWellFormed ds dp" and "depEntry c = Some cp" and "depWellFormed ds cp"
  shows "isChainElem ls ds dp routineIndex c =
           Inr (cp = dp \<or>
                (\<exists>i<depHoldingCount (ds dp). \<exists>j<depHoldingCount (ds cp).
                   equalLock ls (depHoldingSet (ds dp) ! i) (depHoldingSet (ds cp) ! j) \<and>
                   \<not> (rLocked ls (depHoldingSet (ds cp) ! j) (stackIndex c) \<and>
                      rLocked ls (depHoldingSet (ds dp) ! i) routineIndex)))"
proof (cases "cp = dp")
  case True
  with assms show ?thesis by (simp add: isChainElem_def)
next
  case False
  let ?G = "\<lambda>i j. equalLock ls (depHoldingSet (ds dp) ! i) (depHoldingSet (ds cp) ! j) \<and>
                   \<not> (rLocked ls (depHoldingSet (ds cp) ! j) (stackIndex c) \<and>
                      rLocked ls (depHoldingSet (ds dp) ! i) routineIndex)"
  have inner: "existsE (isChainGate ls ds c (ds dp) routineIndex i) [0..<depHoldingCount (ds cp)] =
                 Inr (\<exists>j\<in>set [0..<depHoldingCount (ds cp)]. ?G i j)"
    if "i < depHoldingCount (ds dp)" for i
    by (rule existsE_char) (use that assms in \<open>simp add: isChainGate_char\<close>)
  have outer: "existsE (\<lambda>i. existsE (isChainGate ls ds c (ds dp) routineIndex i) [0..<depHoldingCount (ds cp)])
                  [0..<depHoldingCount (ds dp)] =
                 Inr (\<exists>i\<in>set [0..<depHoldingCount (ds dp)]. \<exists>j\<in>set [0..<depHoldingCount (ds cp)]. ?G i j)"
    by (rule existsE_char) (simp add: inner)
  from False assms(2) outer show ?thesis
    by (simp add: isChainElem_def Bex_def)
qed

text \<open>
  Claim C1. For a well-formed path with top element \<open>tp\<close> and a well-formed candidate \<open>dp\<close>
  of routine \<open>routineIndex\<close>, isChain returns true exactly when (1) some lock of the
  candidate's holding set is the lock acquired by the top dependency and that occurrence is
  not a reader-reader pair (the flag of the occurrence read for \<open>routineIndex\<close>, the flag of
  the top's lock read for the top element's index), (2) no element of the path carries the
  candidate itself, and (3) for every element of the path and every pair of equal locks,
  one in the candidate's and one in the element's holding set, both are reader
  acquisitions.
\<close>

theorem isChain_iff_link_unique_gatefree:
  assumes "pathWellFormed ds st" and "depWellFormed ds dp"
  shows "\<exists>tp. depEntry (stackTop st) = Some tp \<and>
     isChain ls ds st (Some dp) routineIndex =
       Inr ((\<exists>i<depHoldingCount (ds dp).
               equalLock ls (depHoldingSet (ds dp) ! i) (depMu (ds tp)) \<and>
               \<not> (rLocked ls (depHoldingSet (ds dp) ! i) routineIndex \<and>
                  rLocked ls (depMu (ds tp)) (stackIndex (stackTop st)))) \<and>
            (\<forall>c\<in>set (chain st). depEntry c \<noteq> Some dp) \<and>
            (\<forall>c\<in>set (chain st). \<forall>cp. depEntry c = Some cp \<longrightarrow>
               (\<forall>i<depHoldingCount (ds dp). \<forall>j<depHoldingCount (ds cp).
                  equalLock ls (depHoldingSet (ds dp) ! i) (depHoldingSet (ds cp) ! j) \<longrightarrow>
                  rLocked ls (depHoldingSet (ds cp) ! j) (stackIndex c) \<and>
                  rLocked ls (depHoldingSet (ds dp) ! i) routineIndex)))"
proof -
  from assms(1) have ne: "chain st \<noteq> []"
    and el: "\<And>c. c \<in> set (chain st) \<Longrightarrow> \<exists>cp. depEntry c = Some cp \<and> depWellFormed ds cp"
    by (auto simp: pathWellFormed_def)
  from ne have "stackTop st \<in> set (chain st)" by (simp add: stackTop_def)
  with el obtain tp where tp: "depEntry (stackTop st) = Some tp" "depWellFormed ds tp" by blast
  let ?L = "\<lambda>i. equalLock ls (depHoldingSet (ds dp) ! i) (depMu (ds tp)) \<and>
               \<not> (rLocked ls (depHoldingSet (ds dp) ! i) routineIndex \<and>
                  rLocked ls (depMu (ds tp)) (stackIndex (stackTop st)))"
  let ?B = "\<lambda>c. the (depEntry c) = dp \<or>
                (\<exists>i<depHoldingCount (ds dp). \<exists>j<depHoldingCount (ds (the (depEntry c))).
                   equalLock ls (depHoldingSet (ds dp) ! i) (depHoldingSet (ds (the (depEntry c))) ! j) \<and>
                   \<not> (rLocked ls (depHoldingSet (ds (the (depEntry c))) ! j) (stackIndex c) \<and>
                      rLocked ls (depHoldingSet (ds dp) ! i) routineIndex))"
  have link: "existsE (isChainLink ls ds st (ds dp) routineIndex) [0..<depHoldingCount (ds dp)] =
                Inr (\<exists>i\<in>set [0..<depHoldingCount (ds dp)]. ?L i)"
    by (rule existsE_char) (use assms(2) tp in \<open>simp add: isChainLink_char\<close>)
  have elems: "existsE (isChainElem ls ds dp routineIndex) (chain st) = Inr (\<exists>c\<in>set (chain st). ?B c)"
  proof (rule existsE_char)
    fix c assume "c \<in> set (chain st)"
    with el obtain cp where "depEntry c = Some cp" "depWellFormed ds cp" by blast
    with assms(2) show "isChainElem ls ds dp routineIndex c = Inr (?B c)"
      by (simp add: isChainElem_char)
  qed
  have bad: "(\<not> (\<exists>c\<in>set (chain st). ?B c)) \<longleftrightarrow>
        (\<forall>c\<in>set (chain st). depEntry c \<noteq> Some dp) \<and>
        (\<forall>c\<in>set (chain st). \<forall>cp. depEntry c = Some cp \<longrightarrow>
               (\<forall>i<depHoldingCount (ds dp). \<forall>j<depHoldingCount (ds cp).
                  equalLock ls (depHoldingSet (ds dp) ! i) (depHoldingSet (ds cp) ! j) \<longrightarrow>
                  rLocked ls (depHoldingSet (ds cp) ! j) (stackIndex c) \<and>
                  rLocked ls (depHoldingSet (ds dp) ! i) routineIndex))"
    (is "?lhs \<longleftrightarrow> ?u \<and> ?g")
  proof
    assume l: ?lhs
    have ?u using l by auto
    moreover have ?g using l by (metis option.sel)
    ultimately show "?u \<and> ?g" ..
  next
    assume r: "?u \<and> ?g"
    show ?lhs
    proof
      assume "\<exists>c\<in>set (chain st). ?B c"
      then obtain c where c: "c \<in> set (chain st)" "?B c" ..
      with el obtain cp where cp: "depEntry c = Some cp" by blast
      with c r have "cp \<noteq> dp" by auto
      with c cp r show False by (metis option.sel)
    qed
  qed
  have "isChain ls ds st (Some dp) routineIndex =
          Inr ((\<exists>i\<in>set [0..<depHoldingCount (ds dp)]. ?L i) \<and> \<not> (\<exists>c\<in>set (chain st). ?B c))"
    by (simp add: isChain_def link elems)
  also have "\<dots> = Inr ((\<exists>i<depHoldingCount (ds dp). ?L i) \<and>
        (\<forall>c\<in>set (chain st). depEntry c \<noteq> Some dp) \<and>
        (\<forall>c\<in>set (chain st). \<forall>cp. depEntry c = Some cp \<longrightarrow>
               (\<forall>i<depHoldingCount (ds dp). \<forall>j<depHoldingCount (ds cp).
                  equalLock ls (depHoldingSet (ds dp) ! i) (depHoldingSet (ds cp) ! j) \<longrightarrow>
                  rLocked ls (depHoldingSet (ds cp) ! j) (stackIndex c) \<and>
                  rLocked ls (depHoldingSet (ds dp) ! i) routineIndex)))"
    unfolding bad by (simp add: Bex_def)
  finally show ?thesis using tp(1) by blast
qed

text \<open>
  Routine 0 acquired lock 2 while holding lock 1 (dependency 0), routine 1 acquired lock 1
  while holding lock 2 (dependency 1). With dependency 0 on the stack, dependency 1
  continues the chain.
\<close>

theorem isChain_iff_link_unique_gatefree_witness:
  "pathWellFormed
     (\<lambda>p. if p = 0 then \<lparr>depMu = MutexPtr 2, depHoldingSet = [MutexPtr 1], depHoldingCount = 1\<rparr>
           else \<lparr>depMu = MutexPtr 1, depHoldingSet = [MutexPtr 2], depHoldingCount = 1\<rparr>)
     (push newDepStack (Some 0) 0) \<and>
   depWellFormed
     (\<lambda>p. if p = 0 then \<lparr>depMu = MutexPtr 2, depHoldingSet = [MutexPtr 1], depHoldingCount = 1\<rparr>
           else \<lparr>depMu = MutexPtr 1, depHoldingSet = [MutexPtr 2], depHoldingCount = 1\<rparr>) 1 \<and>
   isChain
     (\<lambda>m. \<lparr>mu = (case m of MutexPtr a \<Rightarrow> a | RWMutexPtr a \<Rightarrow> a | NilMutex \<Rightarrow> 0),
           lockContext = [], inited = True, numberLocked = 0, isLockedRoutineIndex = Map.empty,
           memoryPosition = 0, isRLock = Map.empty\<rparr>)
     (\<lambda>p. if p = 0 then \<lparr>depMu = MutexPtr 2, depHoldingSet = [MutexPtr 1], depHoldingCount = 1\<rparr>
           else \<lparr>depMu = MutexPtr 1, depHoldingSet = [MutexPtr 2], depHoldingCount = 1\<rparr>)
     (push newDepStack (Some 0) 0) (Some 1) 1 = Inr True"
proof -
  let ?ds = "\<lambda>p::nat. if p = 0 then \<lparr>depMu = MutexPtr 2, depHoldingSet = [MutexPtr 1], depHoldingCount = 1\<rparr>
           else \<lparr>depMu = MutexPtr 1, depHoldingSet = [MutexPtr 2], depHoldingCount = 1\<rparr>"
  let ?ls = "\<lambda>m. \<lparr>mu = (case m of MutexPtr a \<Rightarrow> a | RWMutexPtr a \<Rightarrow> a | NilMutex \<Rightarrow> 0),
           lockContext = [], inited = True, numberLocked = 0, isLockedRoutineIndex = Map.empty,
           memoryPosition = 0, isRLock = Map.empty\<rparr>"
  let ?st = "push newDepStack (Some 0) 0"
  have wd: "depWellFormed ?ds 1" by (simp add: depWellFormed_def)
  have wp: "pathWellFormed ?ds ?st"
    by (simp add: pathWellFormed_def depWellFormed_def push_def newDepStack_def newStackElement_def)
  have top: "depEntry (stackTop ?st) = Some 0" "stackIndex (stackTop ?st) = 0" "chain ?st = [newStackElement (Some 0) 0]"
    by (simp_all add: stackTop_def push_def newDepStack_def newStackElement_def)
  from isChain_iff_link_unique_gatefree [OF wp wd, of ?ls 1]
  have "isChain ?ls ?ds ?st (Some 1) 1 = Inr True"
    by (simp add: top newStackElement_def equalLock_def rLocked_def mutexHaveEqualLock_def
        getLock_def getRLock_def)
  with wp wd show ?thesis by blast
qed

section \<open>Properties of isCycleChain\<close>

lemma isCycleChainLink_char:
  assumes "depWellFormed ds bp" and "depWellFormed ds dp" and "i < depHoldingCount (ds bp)"
  shows "isCycleChainLink ls ds dStack bp dp routineIndex i =
           Inr (equalLock ls (depHoldingSet (ds bp) ! i) (depMu (ds dp)) \<and>
                \<not> (rLocked ls (depHoldingSet (ds bp) ! i) (stackIndex (stack dStack)) \<and>
                   rLocked ls (depMu (ds dp)) routineIndex))"
proof -
  from assms have a: "depHoldingSet (ds bp) ! i \<noteq> NilMutex" and b: "depMu (ds dp) \<noteq> NilMutex"
    and c: "i < length (depHoldingSet (ds bp))"
    by (auto simp: depWellFormed_def)
  show ?thesis
    using c
    by (simp add: isCycleChainLink_def Let_def mutexHaveEqualLock_total [OF a b] bothRLock_total [OF a b])
qed

text \<open>
  What isCycleChain computes on a well-formed path: the reader flag of the occurrence in
  the bottom dependency's holding set is read for the index stored in the empty first
  element of the stack, not for the routine of the bottom dependency.
\<close>

lemma isCycleChain_char:
  assumes "pathWellFormed ds dStack" and "depWellFormed ds dp"
  shows "\<exists>bp. depEntry (hd (chain dStack)) = Some bp \<and>
     isCycleChain ls ds dStack (Some dp) routineIndex =
       Inr (\<exists>i<depHoldingCount (ds bp).
              equalLock ls (depHoldingSet (ds bp) ! i) (depMu (ds dp)) \<and>
              \<not> (rLocked ls (depHoldingSet (ds bp) ! i) (stackIndex (stack dStack)) \<and>
                 rLocked ls (depMu (ds dp)) routineIndex))"
proof -
  from assms(1) obtain bottom rest where ch: "chain dStack = bottom # rest"
    by (cases "chain dStack") (auto simp: pathWellFormed_def)
  with assms(1) obtain bp where bp: "depEntry bottom = Some bp" "depWellFormed ds bp"
    by (auto simp: pathWellFormed_def)
  have "existsE (isCycleChainLink ls ds dStack bp dp routineIndex) [0..<depHoldingCount (ds bp)] =
          Inr (\<exists>i\<in>set [0..<depHoldingCount (ds bp)].
              equalLock ls (depHoldingSet (ds bp) ! i) (depMu (ds dp)) \<and>
              \<not> (rLocked ls (depHoldingSet (ds bp) ! i) (stackIndex (stack dStack)) \<and>
                 rLocked ls (depMu (ds dp)) routineIndex))"
    by (rule existsE_char) (use bp assms(2) in \<open>simp add: isCycleChainLink_char\<close>)
  with ch bp show ?thesis
    by (simp add: isCycleChain_def Bex_def)
qed

text \<open>
  Claim C2, at a concrete input. Lock 1 is a reader/writer lock, lock 2 a mutex. Routine 0
  read-locked lock 1 and then locked lock 2 (dependency 0); routine 1 locked lock 2 and then
  read-locked lock 1 (dependency 1). With dependency 0 at the bottom of the stack,
  dependency 1 of routine 1 is a valid chain element, and the only occurrence of lock 1 in
  the bottom's holding set is a reader-reader pair (its flag for routine 0 and the
  candidate's flag for routine 1 are both set). isCycleChain returns true all the same.
\<close>

theorem isCycleChain_reader_reader_cycle:
  "isChain
     (\<lambda>m. \<lparr>mu = (case m of MutexPtr a \<Rightarrow> a | RWMutexPtr a \<Rightarrow> a | NilMutex \<Rightarrow> 0),
           lockContext = [], inited = True, numberLocked = 0, isLockedRoutineIndex = Map.empty,
           memoryPosition = 0,
           isRLock = (if m = RWMutexPtr 1 then [0 \<mapsto> True, 1 \<mapsto> True] else Map.empty)\<rparr>)
     (\<lambda>p. if p = 0 then \<lparr>depMu = MutexPtr 2, depHoldingSet = [RWMutexPtr 1], depHoldingCount = 1\<rparr>
           else \<lparr>depMu = RWMutexPtr 1, depHoldingSet = [MutexPtr 2], depHoldingCount = 1\<rparr>)
     (push newDepStack (Some 0) 0) (Some 1) 1 = Inr True \<and>
   isCycleChain
     (\<lambda>m. \<lparr>mu = (case m of MutexPtr a \<Rightarrow> a | RWMutexPtr a \<Rightarrow> a | NilMutex \<Rightarrow> 0),
           lockContext = [], inited = True, numberLocked = 0, isLockedRoutineIndex = Map.empty,
           memoryPosition = 0,
           isRLock = (if m = RWMutexPtr 1 then [0 \<mapsto> True, 1 \<mapsto> True] else Map.empty)\<rparr>)
     (\<lambda>p. if p = 0 then \<lparr>depMu = MutexPtr 2, depHoldingSet = [RWMutexPtr 1], depHoldingCount = 1\<rparr>
           else \<lparr>depMu = RWMutexPtr 1, depHoldingSet = [MutexPtr 2], depHoldingCount = 1\<rparr>)
     (push newDepStack (Some 0) 0) (Some 1) 1 = Inr True \<and>
   getRLock
     (\<lambda>m. \<lparr>mu = (case m of MutexPtr a \<Rightarrow> a | RWMutexPtr a \<Rightarrow> a | NilMutex \<Rightarrow> 0),
           lockContext = [], inited = True, numberLocked = 0, isLockedRoutineIndex = Map.empty,
           memoryPosition = 0,
           isRLock = (if m = RWMutexPtr 1 then [0 \<mapsto> True, 1 \<mapsto> True] else Map.empty)\<rparr>)
     (RWMutexPtr 1) 0 = Inr True \<and>
   getRLock
     (\<lambda>m. \<lparr>mu = (case m of MutexPtr a \<Rightarrow> a | RWMutexPtr a \<Rightarrow> a | NilMutex \<Rightarrow> 0),
           lockContext = [], inited = True, numberLocked = 0, isLockedRoutineIndex = Map.empty,
           memoryPosition = 0,
           isRLock = (if m = RWMutexPtr 1 then [0 \<mapsto> True, 1 \<mapsto> True] else Map.empty)\<rparr>)
     (RWMutexPtr 1) 1 = Inr True \<and>
   stackIndex (stack (push newDepStack (Some 0) 0)) = - 1 \<and>
   stackIndex (hd (chain (push newDepStack (Some 0) 0))) = 0"
  by (simp add: isChain_def isChainLink_def isChainElem_def isChainGate_def
      isCycleChain_def isCycleChainLink_def
      mutexHaveEqualLock_def getLock_def bothRLock_def getRLock_def
      push_def newDepStack_def newStackElement_def stackTop_def)

section \<open>Properties of updateLock: deduplication\<close>



declare holdingSetsAgree.simps [simp del]

lemma existsE_TrueD:
  "existsE f xs = Inr True \<Longrightarrow> \<exists>x\<in>set xs. f x = Inr True"
  by (induction xs) (auto split: sum.splits if_splits)

lemma holdingSetsAgree_result:
  "holdingSetsAgree dhs rhs hc i = Inr k \<Longrightarrow>
     i \<le> k \<and> k < length dhs \<and> k < length rhs \<and>
     (\<forall>j. i \<le> j \<and> j < k \<longrightarrow> dhs ! j = rhs ! j) \<and> (k < hc \<longrightarrow> dhs ! k \<noteq> rhs ! k)"
proof (induction dhs rhs hc i rule: holdingSetsAgree.induct)
  case (1 dhs rhs hc i)
  show ?case
  proof (cases "dhs ! i = rhs ! i \<and> i < hc")
    case True
    with "1.prems" have rec: "holdingSetsAgree dhs rhs hc (Suc i) = Inr k" and
      inb: "\<not> (length dhs \<le> i \<or> length rhs \<le> i)"
      by (auto simp: holdingSetsAgree.simps [of dhs rhs hc i] split: if_splits)
    from "1.IH" [OF inb True rec]
    have ih: "Suc i \<le> k" "k < length dhs" "k < length rhs"
      "\<forall>j. Suc i \<le> j \<and> j < k \<longrightarrow> dhs ! j = rhs ! j" "k < hc \<longrightarrow> dhs ! k \<noteq> rhs ! k"
      by auto
    have "dhs ! j = rhs ! j" if "i \<le> j" "j < k" for j
    proof (cases "j = i")
      case True
      with \<open>dhs ! i = rhs ! i \<and> i < hc\<close> show ?thesis by simp
    next
      case False
      with that have "Suc i \<le> j" by simp
      with ih(4) that show ?thesis by blast
    qed
    with ih show ?thesis by auto
  next
    case False
    with "1.prems" show ?thesis
      by (auto simp: holdingSetsAgree.simps [of dhs rhs hc i] split: if_splits)
  qed
qed

lemma holdingSetsAgree_total:
  "hc < length dhs \<Longrightarrow> hc < length rhs \<Longrightarrow> i \<le> hc \<Longrightarrow>
   \<exists>k. holdingSetsAgree dhs rhs hc i = Inr k \<and> k \<le> hc"
proof (induction dhs rhs hc i rule: holdingSetsAgree.induct)
  case (1 dhs rhs hc i)
  show ?case
  proof (cases "dhs ! i = rhs ! i \<and> i < hc")
    case True
    with "1.prems" have inb: "\<not> (length dhs \<le> i \<or> length rhs \<le> i)" by auto
    from "1.IH" [OF inb True] "1.prems" True
    obtain k where "holdingSetsAgree dhs rhs hc (Suc i) = Inr k" "k \<le> hc" by auto
    with inb True show ?thesis
      by (simp add: holdingSetsAgree.simps [of dhs rhs hc i])
  next
    case False
    with "1.prems" show ?thesis
      by (auto simp: holdingSetsAgree.simps [of dhs rhs hc i])
  qed
qed

lemma holdingSetsAgree_char:
  assumes "hc < length dhs" and "hc < length rhs"
  shows "\<exists>k. holdingSetsAgree dhs rhs hc 0 = Inr k \<and> (k = hc \<longleftrightarrow> (\<forall>j<hc. dhs ! j = rhs ! j))"
proof -
  from holdingSetsAgree_total [OF assms, of 0]
  obtain k where k: "holdingSetsAgree dhs rhs hc 0 = Inr k" "k \<le> hc" by auto
  from holdingSetsAgree_result [OF k(1)] k(2)
  have "k = hc \<longleftrightarrow> (\<forall>j<hc. dhs ! j = rhs ! j)"
    by (metis le_neq_implies_less zero_le)
  with k show ?thesis by blast
qed

lemma dependencyAlreadyExists_char:
  assumes "\<And>p. p \<in> set depList \<Longrightarrow> depHoldingCount (ds p) < length (depHoldingSet (ds p))"
    and "holdingCount r < length (holdingSet r)"
  shows "dependencyAlreadyExists ds r m depList =
     Inr (\<exists>p\<in>set depList. depMu (ds p) = m \<and> depHoldingCount (ds p) = holdingCount r \<and>
           (\<forall>i<holdingCount r. depHoldingSet (ds p) ! i = holdingSet r ! i))"
  unfolding dependencyAlreadyExists_def
proof (rule existsE_char)
  fix p assume p: "p \<in> set depList"
  show "(let d = ds p; hc = holdingCount r
          in if depMu d = m \<and> depHoldingCount d = hc
             then case holdingSetsAgree (depHoldingSet d) (holdingSet r) hc 0 of
                  Inl e \<Rightarrow> Inl e | Inr i \<Rightarrow> Inr (i = hc)
             else Inr False) =
         Inr (depMu (ds p) = m \<and> depHoldingCount (ds p) = holdingCount r \<and>
           (\<forall>i<holdingCount r. depHoldingSet (ds p) ! i = holdingSet r ! i))"
  proof (cases "depMu (ds p) = m \<and> depHoldingCount (ds p) = holdingCount r")
    case True
    with assms(1) [OF p] have "holdingCount r < length (depHoldingSet (ds p))" by simp
    from holdingSetsAgree_char [OF this assms(2)] True show ?thesis
      by (auto simp: Let_def)
  next
    case False
    then show ?thesis by (auto simp: Let_def)
  qed
qed


lemma setRLock_memoryPosition:
  "setRLock ls m i v = Inr ls' \<Longrightarrow> memoryPosition (ls' x) = memoryPosition (ls x)"
  by (cases m) (auto simp: setRLock_def)

lemma setRLock_nonnil:
  "setRLock ls m i v = Inr ls' \<Longrightarrow> m \<noteq> NilMutex"
  by (cases m) (auto simp: setRLock_def)

lemma newDependency_update_prefix:
  assumes "newDependency opts m hs n = Inr d" and "i < n"
  shows "depHoldingSet (update d m hs n) ! i = hs ! i"
proof -
  from assms(1) have n: "n \<le> length hs"
    and d: "depHoldingSet d = replicate (maxNumberOfDependentLocks opts) NilMutex @ take n hs"
    by (auto simp: newDependency_def split: if_splits)
  from n d assms(2) have "i < min (length (depHoldingSet d)) (length hs)" by simp
  then show ?thesis by (simp add: update_def nth_append)
qed

lemma newDependency_update_length:
  assumes "newDependency opts m hs n = Inr d"
  shows "length (depHoldingSet (update d m hs n)) = maxNumberOfDependentLocks opts + n"
    and "depHoldingCount (update d m hs n) = n" and "depMu (update d m hs n) = m"
proof -
  from assms(1) have n: "n \<le> length hs"
    and d: "depHoldingSet d = replicate (maxNumberOfDependentLocks opts) NilMutex @ take n hs"
    by (auto simp: newDependency_def split: if_splits)
  have "length (depHoldingSet (update d m hs n)) = length (depHoldingSet d)"
    by (auto simp: update_def min_def)
  with n d show "length (depHoldingSet (update d m hs n)) = maxNumberOfDependentLocks opts + n"
    by simp
  show "depHoldingCount (update d m hs n) = n" "depMu (update d m hs n) = m"
    by (simp_all add: update_def)
qed

lemma updateLockNested_frame:
  assumes "updateLockNested opts m r st = Inr (isNew, r', st')"
  shows "holdingSet r' = holdingSet r" "holdingCount r' = holdingCount r" "index r' = index r"
    "locks st' = locks st" "collectedSingleLevelLocks r' = collectedSingleLevelLocks r"
    "depCount r' = (if isNew then depCount r + 1 else depCount r)"
  using assms unfolding updateLockNested_def Let_def
  by (auto split: sum.splits option.splits if_splits)


lemma getMemoryPosition_InrD:
  "getMemoryPosition ls m = Inr p \<Longrightarrow> p = memoryPosition (ls m) \<and> m \<noteq> NilMutex"
  by (cases m) (auto simp: getMemoryPosition_def)

lemma updateLockNested_disj:
  assumes "updateLockNested opts m r st = Inr (isNew, r', st')"
  shows "(isNew \<and> depCount r < maxDependencies opts \<and>
          (\<exists>dep. newDependency opts m (holdingSet r) (holdingCount r) = Inr dep \<and>
             r' = r\<lparr>dependencies := (dependencies r)[depCount r := Some (depNext st)],
                    depCount := depCount r + 1,
                    dependencyMap := (dependencyMap r)(bucketKey st r m \<mapsto>
                       (case dependencyMap r (bucketKey st r m) of
                          Some depList \<Rightarrow> depList @ [depNext st] | None \<Rightarrow> [depNext st])),
                    curDep := Some (depNext st)\<rparr> \<and>
             st' = st\<lparr>depObjs := (depObjs st)(depNext st := update dep m (holdingSet r) (holdingCount r)),
                      depNext := Suc (depNext st)\<rparr>) \<and>
          (dependencyMap r (bucketKey st r m) = None \<or>
           (\<exists>l. dependencyMap r (bucketKey st r m) = Some l \<and>
                dependencyAlreadyExists (depObjs st) r m l = Inr False))) \<or>
         (\<not> isNew \<and> r' = r \<and> st' = st \<and>
          (\<exists>l. dependencyMap r (bucketKey st r m) = Some l \<and>
               dependencyAlreadyExists (depObjs st) r m l = Inr True))"
proof -
  from assms obtain p1 p2 where
    p1: "getMemoryPosition (locks st) m = Inr p1" and
    p2: "getMemoryPosition (locks st) (holdingSet r ! (holdingCount r - 1)) = Inr p2"
    unfolding updateLockNested_def Let_def
    by (auto split: sum.splits if_splits)
  from p1 p2 have key: "p1 XOR p2 = bucketKey st r m"
    by (auto simp: bucketKey_def dest!: getMemoryPosition_InrD)
  from assms show ?thesis
    unfolding updateLockNested_def Let_def p1 p2
    by (auto simp: key split: sum.splits option.splits if_splits)
qed


lemma updateLockNested_cases:
  assumes "updateLockNested opts m r st = Inr (isNew, r', st')"
  obtains (new) dep where "isNew" "depCount r < maxDependencies opts"
      "newDependency opts m (holdingSet r) (holdingCount r) = Inr dep"
      "r' = r\<lparr>dependencies := (dependencies r)[depCount r := Some (depNext st)],
                    depCount := depCount r + 1,
                    dependencyMap := (dependencyMap r)(bucketKey st r m \<mapsto>
                       (case dependencyMap r (bucketKey st r m) of
                          Some depList \<Rightarrow> depList @ [depNext st] | None \<Rightarrow> [depNext st])),
                    curDep := Some (depNext st)\<rparr>"
      "st' = st\<lparr>depObjs := (depObjs st)(depNext st := update dep m (holdingSet r) (holdingCount r)),
                      depNext := Suc (depNext st)\<rparr>"
      "dependencyMap r (bucketKey st r m) = None \<or>
           (\<exists>l. dependencyMap r (bucketKey st r m) = Some l \<and>
                dependencyAlreadyExists (depObjs st) r m l = Inr False)"
  | (old) l where "\<not> isNew" "r' = r" "st' = st" "dependencyMap r (bucketKey st r m) = Some l"
      "dependencyAlreadyExists (depObjs st) r m l = Inr True"
  using updateLockNested_disj [OF assms] by blast

lemma updateLockSingleLevel_frame:
  assumes "updateLockSingleLevel opts site r = (isNew, r1)"
  shows "holdingSet r1 = holdingSet r" "holdingCount r1 = holdingCount r" "index r1 = index r"
    "dependencyMap r1 = dependencyMap r" "dependencies r1 = dependencies r"
    "depCount r1 = depCount r" "curDep r1 = curDep r"
  using assms unfolding updateLockSingleLevel_def
  by (auto split: option.splits if_splits)

lemma updateLock_cases:
  assumes "updateLock opts site m rLock r st = Inr (r', st')"
  shows "\<exists>ls isNew r1 st1. setRLock (locks st) m (index r) rLock = Inr ls \<and>
      (if 0 < holdingCount r then updateLockNested opts m r (st\<lparr>locks := ls\<rparr>) = Inr (isNew, r1, st1)
       else updateLockSingleLevel opts site r = (isNew, r1) \<and> st1 = st\<lparr>locks := ls\<rparr>) \<and>
      holdingCount r < maxNumberOfDependentLocks opts \<and> holdingCount r < length (holdingSet r1) \<and>
      r' = r1\<lparr>holdingSet := (holdingSet r1)[holdingCount r := m], holdingCount := holdingCount r1 + 1\<rparr> \<and>
      depObjs st' = depObjs st1 \<and> depNext st' = depNext st1 \<and>
      (\<forall>x. memoryPosition (locks st' x) = memoryPosition (locks st1 x))"
  using assms unfolding updateLock_def Let_def
  by (auto split: sum.splits prod.splits if_splits)


lemma updateLock_frame:
  assumes "updateLock opts site m rLock r st = Inr (r', st')"
  shows "holdingSet r' = (holdingSet r)[holdingCount r := m]"
    and "holdingCount r' = holdingCount r + 1"
    and "holdingCount r < maxNumberOfDependentLocks opts"
    and "holdingCount r < length (holdingSet r)"
    and "m \<noteq> NilMutex"
    and "memoryPosition (locks st' x) = memoryPosition (locks st x)"
proof -
  from updateLock_cases [OF assms] obtain ls isNew r1 st1 where
    ls: "setRLock (locks st) m (index r) rLock = Inr ls" and
    br: "if 0 < holdingCount r then updateLockNested opts m r (st\<lparr>locks := ls\<rparr>) = Inr (isNew, r1, st1)
       else updateLockSingleLevel opts site r = (isNew, r1) \<and> st1 = st\<lparr>locks := ls\<rparr>" and
    rest: "holdingCount r < maxNumberOfDependentLocks opts" "holdingCount r < length (holdingSet r1)"
      "r' = r1\<lparr>holdingSet := (holdingSet r1)[holdingCount r := m], holdingCount := holdingCount r1 + 1\<rparr>"
      "\<forall>x. memoryPosition (locks st' x) = memoryPosition (locks st1 x)"
    by blast
  have fr: "holdingSet r1 = holdingSet r \<and> holdingCount r1 = holdingCount r \<and> locks st1 = ls"
  proof (cases "0 < holdingCount r")
    case True
    with br updateLockNested_frame [of opts m r "st\<lparr>locks := ls\<rparr>" isNew r1 st1] show ?thesis by simp
  next
    case False
    with br updateLockSingleLevel_frame [of opts site r isNew r1] show ?thesis by simp
  qed
  from fr rest show "holdingSet r' = (holdingSet r)[holdingCount r := m]"
    "holdingCount r' = holdingCount r + 1" "holdingCount r < maxNumberOfDependentLocks opts"
    "holdingCount r < length (holdingSet r)"
    by simp_all
  from ls show "m \<noteq> NilMutex" by (rule setRLock_nonnil)
  from fr rest(4) setRLock_memoryPosition [OF ls]
  show "memoryPosition (locks st' x) = memoryPosition (locks st x)" by simp
qed

lemma bucketKey_locks:
  "(\<And>x. memoryPosition (locks st' x) = memoryPosition (locks st x)) \<Longrightarrow>
   bucketKey st' r m = bucketKey st r m"
  by (simp add: bucketKey_def)

lemma bucketHasDependency_cong:
  "bucketKey st' r m = bucketKey st r m \<Longrightarrow> depObjs st' = depObjs st \<Longrightarrow>
   bucketHasDependency st' r m = bucketHasDependency st r m"
  by (simp add: bucketHasDependency_def)

lemma nested_found_iff:
  assumes inv: "routineInv opts (r, st)" and len: "holdingCount r < length (holdingSet r)"
  shows "(\<exists>l. dependencyMap r (bucketKey st r m) = Some l \<and>
               dependencyAlreadyExists (depObjs st) r m l = Inr True) \<longleftrightarrow> bucketHasDependency st r m"
    and "(dependencyMap r (bucketKey st r m) = None \<or>
           (\<exists>l. dependencyMap r (bucketKey st r m) = Some l \<and>
                dependencyAlreadyExists (depObjs st) r m l = Inr False)) \<longleftrightarrow> \<not> bucketHasDependency st r m"
proof -
  have ch: "dependencyAlreadyExists (depObjs st) r m l =
     Inr (\<exists>p\<in>set l. depMu (depObjs st p) = m \<and> depHoldingCount (depObjs st p) = holdingCount r \<and>
           (\<forall>i<holdingCount r. depHoldingSet (depObjs st p) ! i = holdingSet r ! i))"
    if "dependencyMap r (bucketKey st r m) = Some l" for l
    by (rule dependencyAlreadyExists_char) (use that inv len in \<open>auto simp: routineInv_def\<close>)
  show "(\<exists>l. dependencyMap r (bucketKey st r m) = Some l \<and>
               dependencyAlreadyExists (depObjs st) r m l = Inr True) \<longleftrightarrow> bucketHasDependency st r m"
    using ch by (auto simp: bucketHasDependency_def)
  show "(dependencyMap r (bucketKey st r m) = None \<or>
           (\<exists>l. dependencyMap r (bucketKey st r m) = Some l \<and>
                dependencyAlreadyExists (depObjs st) r m l = Inr False)) \<longleftrightarrow> \<not> bucketHasDependency st r m"
    using ch by (cases "dependencyMap r (bucketKey st r m)") (auto simp: bucketHasDependency_def)
qed


lemma updateLock_deps:
  assumes run: "updateLock opts site m rLock r st = Inr (r', st')"
    and inv: "routineInv opts (r, st)"
  shows "(\<not> (0 < holdingCount r \<and> \<not> bucketHasDependency st r m) \<and>
          dependencyMap r' = dependencyMap r \<and> depObjs st' = depObjs st \<and>
          depNext st' = depNext st \<and> depCount r' = depCount r \<and>
          dependencies r' = dependencies r \<and> curDep r' = curDep r) \<or>
         (0 < holdingCount r \<and> \<not> bucketHasDependency st r m \<and>
          depCount r' = depCount r + 1 \<and>
          dependencyMap r' = (dependencyMap r)(bucketKey st r m \<mapsto>
             (case dependencyMap r (bucketKey st r m) of
                Some depList \<Rightarrow> depList @ [depNext st] | None \<Rightarrow> [depNext st])) \<and>
          depNext st' = Suc (depNext st) \<and>
          (\<exists>d. depObjs st' = (depObjs st)(depNext st := d) \<and> depMu d = m \<and>
               depHoldingCount d = holdingCount r \<and>
               length (depHoldingSet d) = maxNumberOfDependentLocks opts + holdingCount r \<and>
               (\<forall>i<holdingCount r. depHoldingSet d ! i = holdingSet r ! i)) \<and>
          dependencies r' = (dependencies r)[depCount r := Some (depNext st)] \<and>
          curDep r' = Some (depNext st))"
proof -
  from updateLock_cases [OF run] obtain ls isNew r1 st1 where
    ls: "setRLock (locks st) m (index r) rLock = Inr ls" and
    br: "if 0 < holdingCount r then updateLockNested opts m r (st\<lparr>locks := ls\<rparr>) = Inr (isNew, r1, st1)
       else updateLockSingleLevel opts site r = (isNew, r1) \<and> st1 = st\<lparr>locks := ls\<rparr>" and
    r': "r' = r1\<lparr>holdingSet := (holdingSet r1)[holdingCount r := m], holdingCount := holdingCount r1 + 1\<rparr>" and
    st': "depObjs st' = depObjs st1" "depNext st' = depNext st1"
    by blast
  let ?st0 = "st\<lparr>locks := ls\<rparr>"
  have key0: "bucketKey ?st0 r m = bucketKey st r m"
    by (rule bucketKey_locks) (simp add: setRLock_memoryPosition [OF ls])
  have inv0: "routineInv opts (r, ?st0)" using inv by (simp add: routineInv_def)
  have len: "holdingCount r < length (holdingSet r)" by (rule updateLock_frame(4) [OF run])
  have bh0: "bucketHasDependency ?st0 r m = bucketHasDependency st r m"
    by (rule bucketHasDependency_cong) (simp_all add: key0)
  show ?thesis
  proof (cases "0 < holdingCount r")
    case False
    with br have "updateLockSingleLevel opts site r = (isNew, r1)" "st1 = ?st0" by simp_all
    with updateLockSingleLevel_frame [of opts site r isNew r1] r' st' False
    show ?thesis by simp
  next
    case True
    with br have n: "updateLockNested opts m r ?st0 = Inr (isNew, r1, st1)" by simp
    from n show ?thesis
    proof (cases rule: updateLockNested_cases)
      case (old l)
      with nested_found_iff(1) [OF inv0 len, of m] bh0
      have "bucketHasDependency st r m" by blast
      with old r' st' show ?thesis by simp
    next
      case (new dep)
      from new(6) nested_found_iff(2) [OF inv0 len, of m] bh0
      have nb: "\<not> bucketHasDependency st r m" by blast
      let ?d = "update dep m (holdingSet r) (holdingCount r)"
      have d: "depMu ?d = m" "depHoldingCount ?d = holdingCount r"
        "length (depHoldingSet ?d) = maxNumberOfDependentLocks opts + holdingCount r"
        "\<forall>i<holdingCount r. depHoldingSet ?d ! i = holdingSet r ! i"
        using newDependency_update_length [OF new(3)] newDependency_update_prefix [OF new(3)]
        by simp_all
      have "depObjs st' = (depObjs st)(depNext st := ?d)" using new(5) st' by simp
      with d have ex: "\<exists>d. depObjs st' = (depObjs st)(depNext st := d) \<and> depMu d = m \<and>
               depHoldingCount d = holdingCount r \<and>
               length (depHoldingSet d) = maxNumberOfDependentLocks opts + holdingCount r \<and>
               (\<forall>i<holdingCount r. depHoldingSet d ! i = holdingSet r ! i)"
        by blast
      from new(4,5) r' st' key0 True nb ex show ?thesis by (simp cong: option.case_cong)
    qed
  qed
qed


lemma storeExtends_refl: "storeExtends s s"
  by (auto simp: storeExtends_def)

lemma storeExtends_trans:
  assumes "storeExtends a b" and "storeExtends b c"
  shows "storeExtends a c"
  unfolding storeExtends_def
proof (intro conjI allI impI)
  fix key depList assume "dependencyMap (fst a) key = Some depList"
  with assms(1) obtain l1 where l1: "dependencyMap (fst b) key = Some l1" "set depList \<subseteq> set l1"
    unfolding storeExtends_def by blast
  with assms(2) obtain l2 where "dependencyMap (fst c) key = Some l2" "set l1 \<subseteq> set l2"
    unfolding storeExtends_def by blast
  with l1 show "\<exists>depList'. dependencyMap (fst c) key = Some depList' \<and> set depList \<subseteq> set depList'"
    by blast
next
  fix p assume "p < depNext (snd a)"
  with assms show "depObjs (snd c) p = depObjs (snd a) p"
    unfolding storeExtends_def by (metis less_le_trans)
next
  from assms show "depNext (snd a) \<le> depNext (snd c)"
    unfolding storeExtends_def by (meson le_trans)
next
  fix m from assms show "memoryPosition (locks (snd c) m) = memoryPosition (locks (snd a) m)"
    unfolding storeExtends_def by simp
qed

lemma heldLocks_props:
  assumes "holdingCount r \<le> length (holdingSet r)"
  shows "length (heldLocks r) = holdingCount r"
    and "i < holdingCount r \<Longrightarrow> heldLocks r ! i = holdingSet r ! i"
    and "0 < holdingCount r \<Longrightarrow> last (heldLocks r) = holdingSet r ! (holdingCount r - 1)"
    and "0 < holdingCount r \<Longrightarrow> heldLocks r \<noteq> []"
proof -
  show l: "length (heldLocks r) = holdingCount r" using assms by (simp add: heldLocks_def)
  show n: "i < holdingCount r \<Longrightarrow> heldLocks r ! i = holdingSet r ! i" for i by (simp add: heldLocks_def)
  show ne: "0 < holdingCount r \<Longrightarrow> heldLocks r \<noteq> []" using l by auto
  show "0 < holdingCount r \<Longrightarrow> last (heldLocks r) = holdingSet r ! (holdingCount r - 1)"
    using l n [of "holdingCount r - 1"] ne by (simp add: last_conv_nth)
qed

lemma covers_iff_bucket:
  assumes "routineInv opts (r, st)" and "0 < holdingCount r"
  shows "covers (r, st) m (heldLocks r) \<longleftrightarrow> bucketHasDependency st r m"
proof -
  from assms(1) have le: "holdingCount r \<le> length (holdingSet r)" by (simp add: routineInv_def)
  note hp = heldLocks_props [OF le]
  have key: "memoryPosition (locks st m) XOR memoryPosition (locks st (last (heldLocks r))) = bucketKey st r m"
    using hp(3) assms(2) by (simp add: bucketKey_def)
  show ?thesis
  proof
    assume "covers (r, st) m (heldLocks r)"
    then show "bucketHasDependency st r m"
      unfolding covers_def bucketHasDependency_def using key hp(1,2) by auto
  next
    assume "bucketHasDependency st r m"
    then obtain depList p where a: "dependencyMap r (bucketKey st r m) = Some depList" "p \<in> set depList"
        "depMu (depObjs st p) = m" "depHoldingCount (depObjs st p) = holdingCount r"
        "\<forall>i<holdingCount r. depHoldingSet (depObjs st p) ! i = holdingSet r ! i"
      unfolding bucketHasDependency_def by blast
    with assms(1) have "p < depNext st" by (auto simp: routineInv_def)
    with a hp assms(2) key show "covers (r, st) m (heldLocks r)"
      unfolding covers_def by auto
  qed
qed

lemma covers_mono:
  assumes "covers s m held" and "storeExtends s t"
  shows "covers t m held"
proof -
  from assms(1) obtain depList p where a: "held \<noteq> []"
      "dependencyMap (fst s)
          (memoryPosition (locks (snd s) m) XOR memoryPosition (locks (snd s) (last held))) = Some depList"
      "p \<in> set depList" "p < depNext (snd s)"
      "depMu (depObjs (snd s) p) = m" "depHoldingCount (depObjs (snd s) p) = length held"
      "\<forall>i<length held. depHoldingSet (depObjs (snd s) p) ! i = held ! i"
    unfolding covers_def by blast
  from assms(2) have mp: "\<And>x. memoryPosition (locks (snd t) x) = memoryPosition (locks (snd s) x)"
    and ob: "depObjs (snd t) p = depObjs (snd s) p" and nx: "p < depNext (snd t)"
    using a(4) unfolding storeExtends_def by auto
  from assms(2) a(2) obtain l' where l': "dependencyMap (fst t)
          (memoryPosition (locks (snd s) m) XOR memoryPosition (locks (snd s) (last held))) = Some l'"
      "set depList \<subseteq> set l'"
    unfolding storeExtends_def by blast
  with a mp ob nx show ?thesis
    unfolding covers_def by auto
qed


lemma updateLock_extends:
  assumes run: "updateLock opts site m rLock r st = Inr (r', st')" and inv: "routineInv opts (r, st)"
  shows "storeExtends (r, st) (r', st')"
proof -
  have mp: "\<And>x. memoryPosition (locks st' x) = memoryPosition (locks st x)"
    by (rule updateLock_frame(6) [OF run])
  from updateLock_deps [OF run inv] show ?thesis
  proof (elim disjE)
    assume "\<not> (0 < holdingCount r \<and> \<not> bucketHasDependency st r m) \<and>
          dependencyMap r' = dependencyMap r \<and> depObjs st' = depObjs st \<and>
          depNext st' = depNext st \<and> depCount r' = depCount r \<and>
          dependencies r' = dependencies r \<and> curDep r' = curDep r"
    with mp show ?thesis by (simp add: storeExtends_def)
  next
    assume a: "0 < holdingCount r \<and> \<not> bucketHasDependency st r m \<and>
          depCount r' = depCount r + 1 \<and>
          dependencyMap r' = (dependencyMap r)(bucketKey st r m \<mapsto>
             (case dependencyMap r (bucketKey st r m) of
                Some depList \<Rightarrow> depList @ [depNext st] | None \<Rightarrow> [depNext st])) \<and>
          depNext st' = Suc (depNext st) \<and>
          (\<exists>d. depObjs st' = (depObjs st)(depNext st := d) \<and> depMu d = m \<and>
               depHoldingCount d = holdingCount r \<and>
               length (depHoldingSet d) = maxNumberOfDependentLocks opts + holdingCount r \<and>
               (\<forall>i<holdingCount r. depHoldingSet d ! i = holdingSet r ! i)) \<and>
          dependencies r' = (dependencies r)[depCount r := Some (depNext st)] \<and>
          curDep r' = Some (depNext st)"
    then show ?thesis using mp
      by (auto simp: storeExtends_def split: option.splits)
  qed
qed

lemma updateLock_inv:
  assumes run: "updateLock opts site m rLock r st = Inr (r', st')" and inv: "routineInv opts (r, st)"
  shows "routineInv opts (r', st')"
proof -
  note fr = updateLock_frame [OF run]
  from inv have len: "length (holdingSet r) = maxNumberOfDependentLocks opts"
    and old: "\<And>key depList p. dependencyMap r key = Some depList \<Longrightarrow> p \<in> set depList \<Longrightarrow>
        p < depNext st \<and> depHoldingCount (depObjs st p) < length (depHoldingSet (depObjs st p))"
    by (auto simp: routineInv_def)
  have a: "length (holdingSet r') = maxNumberOfDependentLocks opts" using fr(1) len by simp
  have b: "holdingCount r' \<le> maxNumberOfDependentLocks opts" using fr(2,3) by simp
  have c: "p < depNext st' \<and> depHoldingCount (depObjs st' p) < length (depHoldingSet (depObjs st' p))"
    if k: "dependencyMap r' key = Some depList" and p: "p \<in> set depList" for key depList p
    using updateLock_deps [OF run inv]
  proof (elim disjE)
    assume "\<not> (0 < holdingCount r \<and> \<not> bucketHasDependency st r m) \<and>
          dependencyMap r' = dependencyMap r \<and> depObjs st' = depObjs st \<and>
          depNext st' = depNext st \<and> depCount r' = depCount r \<and>
          dependencies r' = dependencies r \<and> curDep r' = curDep r"
    with old [of key depList p] k p show ?thesis by simp
  next
    assume n: "0 < holdingCount r \<and> \<not> bucketHasDependency st r m \<and>
          depCount r' = depCount r + 1 \<and>
          dependencyMap r' = (dependencyMap r)(bucketKey st r m \<mapsto>
             (case dependencyMap r (bucketKey st r m) of
                Some depList \<Rightarrow> depList @ [depNext st] | None \<Rightarrow> [depNext st])) \<and>
          depNext st' = Suc (depNext st) \<and>
          (\<exists>d. depObjs st' = (depObjs st)(depNext st := d) \<and> depMu d = m \<and>
               depHoldingCount d = holdingCount r \<and>
               length (depHoldingSet d) = maxNumberOfDependentLocks opts + holdingCount r \<and>
               (\<forall>i<holdingCount r. depHoldingSet d ! i = holdingSet r ! i)) \<and>
          dependencies r' = (dependencies r)[depCount r := Some (depNext st)] \<and>
          curDep r' = Some (depNext st)"
    then obtain d where d: "depObjs st' = (depObjs st)(depNext st := d)"
      "depHoldingCount d = holdingCount r"
      "length (depHoldingSet d) = maxNumberOfDependentLocks opts + holdingCount r"
      by blast
    from n have nx: "depNext st' = Suc (depNext st)" by simp
    from n have dm: "dependencyMap r' = (dependencyMap r)(bucketKey st r m \<mapsto>
             (case dependencyMap r (bucketKey st r m) of
                Some depList \<Rightarrow> depList @ [depNext st] | None \<Rightarrow> [depNext st]))" by simp
    show ?thesis
    proof (cases "p = depNext st")
      case True
      with d nx fr(3) show ?thesis by simp
    next
      case False
      have "\<exists>l. dependencyMap r key = Some l \<and> p \<in> set l"
      proof (cases "key = bucketKey st r m")
        case True
        with k dm False p show ?thesis by (auto split: option.splits)
      next
        case False
        with k dm p show ?thesis by auto
      qed
      then obtain l where "dependencyMap r key = Some l" "p \<in> set l" by blast
      from old [OF this] d nx False show ?thesis by simp
    qed
  qed
  from a b c show ?thesis unfolding routineInv_def by auto
qed

lemma updateLock_covers:
  assumes run: "updateLock opts site m rLock r st = Inr (r', st')" and inv: "routineInv opts (r, st)"
    and pos: "0 < holdingCount r"
  shows "covers (r', st') m (heldLocks r)"
proof -
  note fr = updateLock_frame [OF run]
  from fr(4) have le: "holdingCount r \<le> length (holdingSet r)" by simp
  note hp = heldLocks_props [OF le]
  have key: "memoryPosition (locks st' m) XOR memoryPosition (locks st' (last (heldLocks r))) = bucketKey st r m"
    using hp(3) pos fr(6) by (simp add: bucketKey_def)
  from updateLock_deps [OF run inv] show ?thesis
  proof (elim disjE)
    assume a: "\<not> (0 < holdingCount r \<and> \<not> bucketHasDependency st r m) \<and>
          dependencyMap r' = dependencyMap r \<and> depObjs st' = depObjs st \<and>
          depNext st' = depNext st \<and> depCount r' = depCount r \<and>
          dependencies r' = dependencies r \<and> curDep r' = curDep r"
    with pos have "bucketHasDependency st r m" by simp
    with covers_iff_bucket [OF inv pos] have "covers (r, st) m (heldLocks r)" by simp
    moreover have "storeExtends (r, st) (r', st')" by (rule updateLock_extends [OF run inv])
    ultimately show ?thesis by (rule covers_mono)
  next
    assume n: "0 < holdingCount r \<and> \<not> bucketHasDependency st r m \<and>
          depCount r' = depCount r + 1 \<and>
          dependencyMap r' = (dependencyMap r)(bucketKey st r m \<mapsto>
             (case dependencyMap r (bucketKey st r m) of
                Some depList \<Rightarrow> depList @ [depNext st] | None \<Rightarrow> [depNext st])) \<and>
          depNext st' = Suc (depNext st) \<and>
          (\<exists>d. depObjs st' = (depObjs st)(depNext st := d) \<and> depMu d = m \<and>
               depHoldingCount d = holdingCount r \<and>
               length (depHoldingSet d) = maxNumberOfDependentLocks opts + holdingCount r \<and>
               (\<forall>i<holdingCount r. depHoldingSet d ! i = holdingSet r ! i)) \<and>
          dependencies r' = (dependencies r)[depCount r := Some (depNext st)] \<and>
          curDep r' = Some (depNext st)"
    then obtain d where d: "depObjs st' = (depObjs st)(depNext st := d)" "depMu d = m"
      "depHoldingCount d = holdingCount r"
      "\<forall>i<holdingCount r. depHoldingSet d ! i = holdingSet r ! i"
      by blast
    from n have nx: "depNext st' = Suc (depNext st)" by simp
    from n have "\<exists>l. dependencyMap r' (bucketKey st r m) = Some l \<and> depNext st \<in> set l"
      by (auto split: option.splits)
    then obtain l where l: "dependencyMap r' (bucketKey st r m) = Some l" "depNext st \<in> set l" by blast
    show ?thesis
      unfolding covers_def using hp pos key l d nx
      by (intro conjI exI [of _ l] exI [of _ "depNext st"]) auto
  qed
qed


lemma splice_held:
  assumes "i < hc" and "hc \<le> length hs"
  shows "take (hc - 1) (take i hs @ drop (Suc i) hs @ [x]) = take i (take hc hs) @ drop (Suc i) (take hc hs)"
proof (cases "hc - 1 \<le> i")
  case True
  with assms have "i = hc - 1" by auto
  with assms show ?thesis by (simp add: drop_take min_def)
next
  case False
  with assms show ?thesis by (simp add: drop_take min_def)
qed

lemma updateUnlockFrom_cases:
  assumes "updateUnlockFrom m r n = Inr r'"
  shows "r' = r \<or> (\<exists>i<n. i < length (holdingSet r) \<and>
           r' = r\<lparr>holdingSet := take i (holdingSet r) @ drop (Suc i) (holdingSet r) @ [NilMutex],
                  holdingCount := holdingCount r - 1\<rparr>)"
  using assms
proof (induction n)
  case 0
  then show ?case by simp
next
  case (Suc n)
  then show ?case
    by (auto split: if_splits simp: less_Suc_eq)
qed

lemma updateUnlock_inv:
  assumes "updateUnlock m r = Inr r'" and "routineInv opts (r, st)"
  shows "routineInv opts (r', st)" and "storeExtends (r, st) (r', st)" and "depCount r' = depCount r"
proof -
  from updateUnlockFrom_cases [OF assms(1) [unfolded updateUnlock_def]]
  have c: "r' = r \<or> (\<exists>i<holdingCount r. i < length (holdingSet r) \<and>
           r' = r\<lparr>holdingSet := take i (holdingSet r) @ drop (Suc i) (holdingSet r) @ [NilMutex],
                  holdingCount := holdingCount r - 1\<rparr>)" .
  then show "routineInv opts (r', st)"
    using assms(2) by (auto simp: routineInv_def)
  from c show "storeExtends (r, st) (r', st)"
    by (auto simp: storeExtends_def)
  from c show "depCount r' = depCount r" by auto
qed

lemma updateUnlockFrom_sim:
  assumes "updateUnlockFrom m r n = Inr r'"
    and "n \<le> holdingCount r" and "holdingCount t = holdingCount r"
    and "heldLocks t = heldLocks r"
    and "holdingCount r \<le> length (holdingSet r)" and "holdingCount t \<le> length (holdingSet t)"
  shows "\<exists>t'. updateUnlockFrom m t n = Inr t' \<and> heldLocks t' = heldLocks r' \<and>
           holdingCount t' = holdingCount r'"
  using assms(1,2)
proof (induction n)
  case 0
  with assms show ?case by simp
next
  case (Suc n)
  from Suc.prems(2) have n: "n < holdingCount r" by simp
  with assms(3,4) have eq: "holdingSet t ! n = holdingSet r ! n"
    by (metis heldLocks_def nth_take)
  from n assms have inb: "n < length (holdingSet r)" "n < length (holdingSet t)" by simp_all
  show ?case
  proof (cases "holdingSet r ! n = m")
    case True
    with Suc.prems(1) inb have r': "r' = r\<lparr>holdingSet := take n (holdingSet r) @ drop (Suc n) (holdingSet r) @ [NilMutex],
               holdingCount := holdingCount r - 1\<rparr>" by simp
    let ?t' = "t\<lparr>holdingSet := take n (holdingSet t) @ drop (Suc n) (holdingSet t) @ [NilMutex],
               holdingCount := holdingCount t - 1\<rparr>"
    from True eq inb have t': "updateUnlockFrom m t (Suc n) = Inr ?t'" by simp
    have sp: "heldLocks (x\<lparr>holdingSet := take n (holdingSet x) @ drop (Suc n) (holdingSet x) @ [NilMutex],
               holdingCount := holdingCount x - 1\<rparr>) = take n (heldLocks x) @ drop (Suc n) (heldLocks x)"
      if "n < holdingCount x" "holdingCount x \<le> length (holdingSet x)" for x :: routine
    proof -
      have "heldLocks (x\<lparr>holdingSet := take n (holdingSet x) @ drop (Suc n) (holdingSet x) @ [NilMutex],
               holdingCount := holdingCount x - 1\<rparr>) =
            take (holdingCount x - 1) (take n (holdingSet x) @ drop (Suc n) (holdingSet x) @ [NilMutex])"
        by (simp add: heldLocks_def)
      also have "\<dots> = take n (take (holdingCount x) (holdingSet x)) @
                        drop (Suc n) (take (holdingCount x) (holdingSet x))"
        using that by (rule splice_held)
      finally show ?thesis by (simp only: heldLocks_def)
    qed
    have "heldLocks ?t' = heldLocks r'"
      using sp [of t] sp [of r] n assms(3,4,5,6) by (simp only: r')
    with t' r' assms(3) show ?thesis by simp
  next
    case False
    with Suc.prems inb have "updateUnlockFrom m r n = Inr r'" by simp
    from Suc.IH [OF this] n obtain t' where "updateUnlockFrom m t n = Inr t'"
      "heldLocks t' = heldLocks r'" "holdingCount t' = holdingCount r'" by auto
    with False eq inb show ?thesis by simp
  qed
qed

lemma updateLock_top_nonnil:
  assumes "updateLock opts site m rLock r st = Inr (r', st')" and "0 < holdingCount r"
  shows "holdingSet r ! (holdingCount r - 1) \<noteq> NilMutex"
proof -
  from updateLock_cases [OF assms(1)] assms(2) obtain ls isNew r1 st1 where
    "setRLock (locks st) m (index r) rLock = Inr ls"
    "updateLockNested opts m r (st\<lparr>locks := ls\<rparr>) = Inr (isNew, r1, st1)"
    by auto
  then show ?thesis
    unfolding updateLockNested_def Let_def
    by (auto split: sum.splits if_splits dest!: getMemoryPosition_InrD)
qed

lemma updateLock_succeeds:
  assumes inv: "routineInv opts (r, st)" and m: "m \<noteq> NilMutex"
    and hc: "holdingCount r < maxNumberOfDependentLocks opts"
    and nested: "0 < holdingCount r \<Longrightarrow>
        holdingSet r ! (holdingCount r - 1) \<noteq> NilMutex \<and> bucketHasDependency st r m"
  shows "\<exists>r' st'. updateLock opts site m rLock r st = Inr (r', st')"
proof -
  from m obtain ls where ls: "setRLock (locks st) m (index r) rLock = Inr ls"
    by (cases m) (auto simp: setRLock_def)
  let ?st0 = "st\<lparr>locks := ls\<rparr>"
  from inv hc have len: "holdingCount r < length (holdingSet r)" by (simp add: routineInv_def)
  have "\<exists>isNew r1 st1. (if 0 < holdingCount r then updateLockNested opts m r ?st0
            else (let (isNew, r') = updateLockSingleLevel opts site r
                  in Inr (isNew, r', ?st0))) = Inr (isNew, r1, st1) \<and> holdingSet r1 = holdingSet r"
  proof (cases "0 < holdingCount r")
    case False
    then show ?thesis
      using updateLockSingleLevel_frame(1) [of opts site r]
      by (cases "updateLockSingleLevel opts site r") auto
  next
    case True
    with nested have top: "holdingSet r ! (holdingCount r - 1) \<noteq> NilMutex"
      and bh: "bucketHasDependency st r m" by simp_all
    have key0: "bucketKey ?st0 r m = bucketKey st r m"
      by (rule bucketKey_locks) (simp add: setRLock_memoryPosition [OF ls])
    have inv0: "routineInv opts (r, ?st0)" using inv by (simp add: routineInv_def)
    have "bucketHasDependency ?st0 r m"
      using bh bucketHasDependency_cong [of ?st0 r m st] key0 by simp
    with nested_found_iff(1) [OF inv0 len, of m] obtain l where
      l: "dependencyMap r (bucketKey ?st0 r m) = Some l"
         "dependencyAlreadyExists (depObjs ?st0) r m l = Inr True" by blast
    have p1: "getMemoryPosition (locks ?st0) m = Inr (memoryPosition (locks ?st0 m))"
      using m by (cases m) (auto simp: getMemoryPosition_def)
    have p2: "getMemoryPosition (locks ?st0) (holdingSet r ! (holdingCount r - 1)) =
        Inr (memoryPosition (locks ?st0 (holdingSet r ! (holdingCount r - 1))))"
      using top by (cases "holdingSet r ! (holdingCount r - 1)") (auto simp: getMemoryPosition_def)
    have "updateLockNested opts m r ?st0 = Inr (False, r, ?st0)"
      unfolding updateLockNested_def Let_def p1 p2
      using len l by (simp add: bucketKey_def)
    with True show ?thesis by auto
  qed
  then obtain isNew r1 st1 where "(if 0 < holdingCount r then updateLockNested opts m r ?st0
            else (let (isNew, r') = updateLockSingleLevel opts site r
                  in Inr (isNew, r', ?st0))) = Inr (isNew, r1, st1)" "holdingSet r1 = holdingSet r"
    by blast
  with ls hc len show ?thesis
    unfolding updateLock_def Let_def by (simp del: split_paired_Ex)
qed


lemma stepOp_inv:
  assumes "stepOp opts x s = Inr s'" and "routineInv opts s"
  shows "routineInv opts s'" and "storeExtends s s'"
proof -
  obtain r st where s: "s = (r, st)" by (cases s)
  obtain r' st' where s': "s' = (r', st')" by (cases s')
  show "routineInv opts s'"
  proof (cases x)
    case (OpLock m rLock site)
    with assms s s' show ?thesis by (auto intro: updateLock_inv)
  next
    case (OpUnlock m)
    with assms s s' show ?thesis by (auto split: sum.splits intro: updateUnlock_inv(1))
  qed
  show "storeExtends s s'"
  proof (cases x)
    case (OpLock m rLock site)
    with assms s s' show ?thesis by (auto intro: updateLock_extends)
  next
    case (OpUnlock m)
    with assms s s' show ?thesis by (auto split: sum.splits intro: updateUnlock_inv(2))
  qed
qed

lemma runOps_inv:
  "runOps opts ops s = Inr s' \<Longrightarrow> routineInv opts s \<Longrightarrow> routineInv opts s' \<and> storeExtends s s'"
proof (induction ops arbitrary: s)
  case Nil
  then show ?case by (simp add: storeExtends_refl)
next
  case (Cons x xs)
  from Cons.prems(1) obtain sm where sm: "stepOp opts x s = Inr sm" "runOps opts xs sm = Inr s'"
    by (auto split: sum.splits)
  from stepOp_inv [OF sm(1) Cons.prems(2)] have "routineInv opts sm" "storeExtends s sm" by simp_all
  with Cons.IH [OF sm(2)] show ?case by (blast intro: storeExtends_trans)
qed

lemma stepOp_sim:
  assumes step: "stepOp opts x s = Inr s'" and invs: "routineInv opts s"
    and e1: "storeExtends s' s1" and e2: "storeExtends s1 t" and invt: "routineInv opts t"
    and held: "heldLocks (fst t) = heldLocks (fst s)"
    and hc: "holdingCount (fst t) = holdingCount (fst s)"
  shows "\<exists>t'. stepOp opts x t = Inr t' \<and> depCount (fst t') = depCount (fst t) \<and>
           heldLocks (fst t') = heldLocks (fst s') \<and> holdingCount (fst t') = holdingCount (fst s') \<and>
           storeExtends t t' \<and> routineInv opts t'"
proof -
  obtain r st where s: "s = (r, st)" by (cases s)
  obtain r' st' where s': "s' = (r', st')" by (cases s')
  obtain rt stt where t: "t = (rt, stt)" by (cases t)
  from invs s have les: "holdingCount r \<le> length (holdingSet r)" by (simp add: routineInv_def)
  from invt t have lens: "length (holdingSet rt) = maxNumberOfDependentLocks opts"
    and let': "holdingCount rt \<le> length (holdingSet rt)" by (simp_all add: routineInv_def)
  from held hc s t have held': "heldLocks rt = heldLocks r" and hc': "holdingCount rt = holdingCount r"
    by simp_all
  show ?thesis
  proof (cases x)
    case (OpUnlock m)
    with step s s' have u: "updateUnlock m r = Inr r'" and st': "st' = st" by (auto split: sum.splits)
    from updateUnlockFrom_sim [OF u [unfolded updateUnlock_def] _ hc' held' les let']
    obtain rt' where rt': "updateUnlock m rt = Inr rt'" "heldLocks rt' = heldLocks r'"
      "holdingCount rt' = holdingCount r'"
      by (auto simp: updateUnlock_def hc')
    from updateUnlock_inv [OF rt'(1) invt [unfolded t]] rt' OpUnlock t s'
    show ?thesis by simp
  next
    case (OpLock m rLock site)
    with step s s' have run: "updateLock opts site m rLock r st = Inr (r', st')" by simp
    note fr = updateLock_frame [OF run]
    have nested: "holdingSet rt ! (holdingCount rt - 1) \<noteq> NilMutex \<and> bucketHasDependency stt rt m"
      if pos: "0 < holdingCount rt"
    proof -
      from pos hc' have posr: "0 < holdingCount r" by simp
      have "holdingSet rt ! (holdingCount rt - 1) = last (heldLocks rt)"
        using heldLocks_props(3) [OF let' pos] by simp
      also have "\<dots> = holdingSet r ! (holdingCount r - 1)"
        using heldLocks_props(3) [OF les posr] held' by simp
      finally have top: "holdingSet rt ! (holdingCount rt - 1) \<noteq> NilMutex"
        using updateLock_top_nonnil [OF run posr] by simp
      have "covers (r', st') m (heldLocks r)"
        by (rule updateLock_covers [OF run invs [unfolded s] posr])
      with e1 e2 s' t have "covers (rt, stt) m (heldLocks r)"
        by (metis covers_mono)
      with held' covers_iff_bucket [OF invt [unfolded t] pos, of m]
      have "bucketHasDependency stt rt m" by simp
      with top show ?thesis by simp
    qed
    from fr(3) hc' have hcm: "holdingCount rt < maxNumberOfDependentLocks opts" by simp
    from updateLock_succeeds [OF invt [unfolded t] fr(5) hcm nested, of site rLock]
    obtain rt' stt' where runt: "updateLock opts site m rLock rt stt = Inr (rt', stt')" by blast
    note frt = updateLock_frame [OF runt]
    from updateLock_deps [OF runt invt [unfolded t]] nested
    have dc: "depCount rt' = depCount rt" by auto
    have hl: "heldLocks rt' = heldLocks r'"
    proof -
      have "heldLocks rt' = take (Suc (holdingCount rt)) ((holdingSet rt)[holdingCount rt := m])"
        using frt by (simp add: heldLocks_def)
      also have "\<dots> = take (holdingCount rt) (holdingSet rt) @ [m]"
        using frt(4) by (simp add: take_Suc_conv_app_nth)
      also have "\<dots> = take (holdingCount r) (holdingSet r) @ [m]"
        using held' hc' by (simp add: heldLocks_def)
      also have "\<dots> = take (Suc (holdingCount r)) ((holdingSet r)[holdingCount r := m])"
        using fr(4) by (simp add: take_Suc_conv_app_nth)
      also have "\<dots> = heldLocks r'"
        using fr by (simp add: heldLocks_def)
      finally show ?thesis .
    qed
    from updateLock_extends [OF runt invt [unfolded t]] updateLock_inv [OF runt invt [unfolded t]]
      dc hl frt(2) fr(2) hc' runt OpLock t s'
    show ?thesis by simp
  qed
qed

lemma runOps_sim:
  assumes "runOps opts ops s = Inr s'" and "routineInv opts s"
    and "storeExtends s' s1" and "storeExtends s1 t" and "routineInv opts t"
    and "heldLocks (fst t) = heldLocks (fst s)"
    and "holdingCount (fst t) = holdingCount (fst s)"
  shows "\<exists>t'. runOps opts ops t = Inr t' \<and> depCount (fst t') = depCount (fst t) \<and>
           heldLocks (fst t') = heldLocks (fst s') \<and> holdingCount (fst t') = holdingCount (fst s') \<and>
           storeExtends s1 t' \<and> routineInv opts t'"
  using assms
proof (induction ops arbitrary: s t)
  case Nil
  then show ?case by simp
next
  case (Cons x xs)
  from Cons.prems(1) obtain sm where sm: "stepOp opts x s = Inr sm" "runOps opts xs sm = Inr s'"
    by (auto split: sum.splits)
  from stepOp_inv [OF sm(1) Cons.prems(2)] have invm: "routineInv opts sm" by simp
  from runOps_inv [OF sm(2) invm] Cons.prems(3) have em: "storeExtends sm s1"
    by (blast intro: storeExtends_trans)
  from stepOp_sim [OF sm(1) Cons.prems(2) em Cons.prems(4,5,6,7)]
  obtain tm where tm: "stepOp opts x t = Inr tm" "depCount (fst tm) = depCount (fst t)"
    "heldLocks (fst tm) = heldLocks (fst sm)" "holdingCount (fst tm) = holdingCount (fst sm)"
    "storeExtends t tm" "routineInv opts tm" by blast
  from Cons.prems(4) tm(5) have e: "storeExtends s1 tm" by (rule storeExtends_trans)
  from Cons.IH [OF sm(2) invm Cons.prems(3) e tm(6) tm(3) tm(4)]
  obtain t' where "runOps opts xs tm = Inr t'" "depCount (fst t') = depCount (fst tm)"
    "heldLocks (fst t') = heldLocks (fst s')" "holdingCount (fst t') = holdingCount (fst s')"
    "storeExtends s1 t'" "routineInv opts t'" by blast
  with tm show ?case by simp
qed

lemma repeatOps_sim:
  assumes run: "runOps opts ops s = Inr s1" and inv: "routineInv opts s"
    and bal: "heldLocks (fst s1) = heldLocks (fst s)" "holdingCount (fst s1) = holdingCount (fst s)"
  shows "storeExtends s1 t \<Longrightarrow> routineInv opts t \<Longrightarrow>
         heldLocks (fst t) = heldLocks (fst s) \<Longrightarrow> holdingCount (fst t) = holdingCount (fst s) \<Longrightarrow>
         \<exists>t'. repeatOps opts n ops t = Inr t' \<and> depCount (fst t') = depCount (fst t)"
proof (induction n arbitrary: t)
  case 0
  then show ?case by simp
next
  case (Suc n)
  from runOps_sim [OF run inv storeExtends_refl Suc.prems]
  obtain t1 where t1: "runOps opts ops t = Inr t1" "depCount (fst t1) = depCount (fst t)"
    "heldLocks (fst t1) = heldLocks (fst s1)" "holdingCount (fst t1) = holdingCount (fst s1)"
    "storeExtends s1 t1" "routineInv opts t1" by blast
  from Suc.IH [OF t1(5,6)] t1(3,4) bal
  obtain t' where "repeatOps opts n ops t1 = Inr t'" "depCount (fst t') = depCount (fst t1)" by auto
  with t1 show ?case by simp
qed


text \<open>
  Claim C3. For a routine in the state the detector keeps it in: (1) updateLock adds a
  dependency (\<open>depCount\<close> grows by one) exactly when the acquisition is nested and the
  bucket of the index for the key \<open>memoryPosition m XOR memoryPosition (top of the holding set)\<close>
  has no dependency with the same lock, the same holding count and the same holding set
  up to that count; otherwise the lock tree is left as it was. (2) If a pattern of lock and
  unlock operations runs through and leaves the routine holding the locks it held before,
  then running it any number of times more runs through as well and leaves \<open>depCount\<close> at
  the value it has after the first run.
\<close>

theorem updateLock_deduplicates:
  assumes inv: "routineInv opts (r, st)"
  shows "(\<forall>site m rLock r' st'. updateLock opts site m rLock r st = Inr (r', st') \<longrightarrow>
            depCount r' = (if 0 < holdingCount r \<and> \<not> bucketHasDependency st r m
                           then depCount r + 1 else depCount r) \<and>
            (depCount r' = depCount r \<longrightarrow>
               dependencies r' = dependencies r \<and> dependencyMap r' = dependencyMap r \<and>
               depObjs st' = depObjs st)) \<and>
         (\<forall>ops r1 st1 n. runOps opts ops (r, st) = Inr (r1, st1) \<and> heldLocks r1 = heldLocks r \<longrightarrow>
            (\<exists>rn stn. repeatOps opts (Suc n) ops (r, st) = Inr (rn, stn) \<and> depCount rn = depCount r1))"
proof (intro conjI allI impI)
  fix site m rLock r' st'
  assume run: "updateLock opts site m rLock r st = Inr (r', st')"
  from updateLock_deps [OF run inv]
  show "depCount r' = (if 0 < holdingCount r \<and> \<not> bucketHasDependency st r m
                           then depCount r + 1 else depCount r)"
    by auto
next
  fix site m rLock r' st'
  assume run: "updateLock opts site m rLock r st = Inr (r', st')"
    and "depCount r' = depCount r"
  with updateLock_deps [OF run inv]
  show "dependencies r' = dependencies r" "dependencyMap r' = dependencyMap r"
    "depObjs st' = depObjs st"
    by auto
next
  fix ops r1 st1 n
  assume a: "runOps opts ops (r, st) = Inr (r1, st1) \<and> heldLocks r1 = heldLocks r"
  then have run: "runOps opts ops (r, st) = Inr (r1, st1)" and held: "heldLocks r1 = heldLocks r"
    by simp_all
  from runOps_inv [OF run inv] have inv1: "routineInv opts (r1, st1)" by simp
  from inv inv1 have "length (heldLocks r) = holdingCount r" "length (heldLocks r1) = holdingCount r1"
    by (simp_all add: routineInv_def heldLocks_def)
  with held have hc: "holdingCount r1 = holdingCount r" by simp
  from repeatOps_sim [OF run inv, of "(r1, st1)" n] held hc inv1
  obtain t' where "repeatOps opts n ops (r1, st1) = Inr t'" "depCount (fst t') = depCount r1"
    by (auto simp: storeExtends_refl)
  with run show "\<exists>rn stn. repeatOps opts (Suc n) ops (r, st) = Inr (rn, stn) \<and> depCount rn = depCount r1"
    by (cases t') simp
qed


text \<open>
  The pattern lock 1, lock 2, unlock 2, unlock 1 on a fresh routine creates one dependency,
  and three runs of it leave one dependency.
\<close>

theorem updateLock_deduplicates_witness:
  "routineInv exOpts (exRoutine, exStore) \<and>
   (\<exists>r1 st1. runOps exOpts exOps (exRoutine, exStore) = Inr (r1, st1) \<and>
      heldLocks r1 = heldLocks exRoutine \<and> depCount r1 = 1) \<and>
   (\<exists>rn stn. repeatOps exOpts 3 exOps (exRoutine, exStore) = Inr (rn, stn) \<and> depCount rn = 1)"
proof -
  have inv: "routineInv exOpts (exRoutine, exStore)"
    by (simp add: routineInv_def exOpts_def exRoutine_def exStore_def)
  have "\<exists>r1 st1. runOps exOpts exOps (exRoutine, exStore) = Inr (r1, st1) \<and>
      heldLocks r1 = heldLocks exRoutine \<and> depCount r1 = 1"
    by (simp add: exOps_def exOpts_def exStore_def exRoutine_def exSite_def defaultOpts_def
      updateLock_def updateLockNested_def updateLockSingleLevel_def updateUnlock_def
      setRLock_def getMemoryPosition_def dependencyAlreadyExists_def newDependency_def update_def
      heldLocks_def newInfo_def Let_def)
  then obtain r1 st1 where r1: "runOps exOpts exOps (exRoutine, exStore) = Inr (r1, st1)"
    "heldLocks r1 = heldLocks exRoutine" "depCount r1 = 1" by blast
  from updateLock_deduplicates [OF inv] r1(1,2)
  have "\<exists>rn stn. repeatOps exOpts (Suc 2) exOps (exRoutine, exStore) = Inr (rn, stn) \<and>
          depCount rn = depCount r1"
    by blast
  with r1 inv show ?thesis by (simp add: numeral_3_eq_3 del: repeatOps.simps)
qed

section \<open>Properties of updateTryLock and of try-lock sequences\<close>


lemma keepsLockTree_refl: "keepsLockTree r r"
  by (simp add: keepsLockTree_def)

lemma keepsLockTree_trans: "keepsLockTree a b \<Longrightarrow> keepsLockTree b c \<Longrightarrow> keepsLockTree a c"
  by (auto simp: keepsLockTree_def)

lemma noNewDependency_refl: "noNewDependency s s"
  by (simp add: noNewDependency_def keepsLockTree_refl)

lemma noNewDependency_trans:
  "noNewDependency a b \<Longrightarrow> noNewDependency b c \<Longrightarrow> noNewDependency a c"
  unfolding noNewDependency_def by (auto intro: keepsLockTree_trans)

lemma updateTryLock_frame:
  assumes "updateTryLock opts m rLock r st = Inr (r', st')"
  shows "dependencies r' = dependencies r" "depCount r' = depCount r"
    "dependencyMap r' = dependencyMap r" "curDep r' = curDep r"
    "depObjs st' = depObjs st" "depNext st' = depNext st"
    "holdingSet r' = (holdingSet r)[holdingCount r := m]" "holdingCount r' = holdingCount r + 1"
    "index r' = index r" "collectedSingleLevelLocks r' = collectedSingleLevelLocks r"
    "setRLock (locks st) m (index r) rLock = Inr (locks st')"
    "holdingCount r < maxNumberOfDependentLocks opts" "holdingCount r < length (holdingSet r)"
  using assms unfolding updateTryLock_def Let_def
  by (auto split: sum.splits if_splits)

lemma updateTryLock_total:
  assumes "holdingCount r < maxNumberOfDependentLocks opts" "holdingCount r < length (holdingSet r)"
    "m \<noteq> NilMutex"
  shows "\<exists>r' st'. updateTryLock opts m rLock r st = Inr (r', st')"
  using assms unfolding updateTryLock_def Let_def
  by (cases m) (auto simp: setRLock_def)

lemma updateTryLock_error:
  assumes "updateTryLock opts m rLock r st = Inl e"
  shows "maxNumberOfDependentLocks opts \<le> holdingCount r \<or> length (holdingSet r) \<le> holdingCount r \<or>
         m = NilMutex"
  using assms updateTryLock_total [of r opts m rLock st] by fastforce

lemma primTryLock_frame:
  "primTryLock s m rLock = Inr (res, s') \<Longrightarrow> routines s' = routines s \<and> heap s' = heap s \<and>
     numberRoutines s' = numberRoutines s \<and> mapIndex s' = mapIndex s"
  unfolding primTryLock_def
  by (auto split: sum.splits option.splits if_splits)

lemma newRoutine_noNew:
  "newRoutine opts g s = Inr s' \<Longrightarrow> noNewDependency s s'"
  unfolding newRoutine_def Let_def
  by (auto simp: noNewDependency_def keepsLockTree_def nth_list_update split: if_splits)

lemma addCounters_noNew [simp]:
  "noNewDependency s (addNumberLocked m k s)" "noNewDependency s (addLockedBy m i k s)"
  by (simp_all add: noNewDependency_def addNumberLocked_def addLockedBy_def keepsLockTree_refl)

lemma tryLockInt_noNew:
  assumes "tryLockInt opts g n m rLock s = Inr (res, s')"
  shows "noNewDependency s s'"
proof (cases "activated opts")
  case False
  with assms primTryLock_frame [of s m rLock res s'] show ?thesis
    by (simp add: tryLockInt_def noNewDependency_def keepsLockTree_refl)
next
  case True
  with assms obtain s1 s3 where
    p: "primTryLock s m rLock = Inr (res, s1)" and
    b: "(if res then
           (case (if getRoutineIndex s1 g = - 1 then newRoutine opts g s1 else Inr s1) of
              Inl e \<Rightarrow> Inl e
            | Inr s2 \<Rightarrow> Inr (addLockedBy m (getRoutineIndex s2 g) 1 (addNumberLocked m 1 s2)))
         else Inr s1) = Inr s3" and
    u: "(if \<not> periodicDetection opts \<and> \<not> comprehensiveDetection opts then Inr (res, s3)
         else if 1 < n \<and> res then
           (if length (routines s3) \<le> 0 then Inl IndexOutOfRange
            else (case updateTryLock opts m rLock (routines s3 ! 0) (heap s3) of
                    Inl e \<Rightarrow> Inl e
                  | Inr (r', st') \<Rightarrow> Inr (res, s3\<lparr>routines := (routines s3)[0 := r'], heap := st'\<rparr>)))
         else Inr (res, s3)) = Inr (res, s')"
    unfolding tryLockInt_def Let_def
    by (auto split: sum.splits if_splits prod.splits)
  from primTryLock_frame [OF p] have n1: "noNewDependency s s1"
    by (simp add: noNewDependency_def keepsLockTree_refl)
  have n2: "noNewDependency s1 s3"
  proof (cases res)
    case False
    with b show ?thesis by (simp add: noNewDependency_refl)
  next
    case True
    with b obtain s2 where s2: "(if getRoutineIndex s1 g = - 1 then newRoutine opts g s1 else Inr s1) = Inr s2"
      "s3 = addLockedBy m (getRoutineIndex s2 g) 1 (addNumberLocked m 1 s2)"
      by (auto split: sum.splits)
    from s2(1) have "noNewDependency s1 s2"
      by (auto split: if_splits intro: newRoutine_noNew noNewDependency_refl)
    moreover have "noNewDependency s2 s3" unfolding s2(2)
      by (blast intro: noNewDependency_trans addCounters_noNew)
    ultimately show ?thesis by (rule noNewDependency_trans)
  qed
  have n3: "noNewDependency s3 s'"
  proof (cases "\<not> (\<not> periodicDetection opts \<and> \<not> comprehensiveDetection opts) \<and> 1 < n \<and> res")
    case False
    with u have "s' = s3" by (auto split: if_splits)
    then show ?thesis by (simp add: noNewDependency_refl)
  next
    case True
    with u obtain r' st' where r': "0 < length (routines s3)"
      "updateTryLock opts m rLock (routines s3 ! 0) (heap s3) = Inr (r', st')"
      "s' = s3\<lparr>routines := (routines s3)[0 := r'], heap := st'\<rparr>"
      by (auto split: if_splits sum.splits)
    from updateTryLock_frame [OF r'(2)] r'(1,3) show ?thesis
      by (auto simp: noNewDependency_def keepsLockTree_def nth_list_update)
  qed
  from n1 n2 n3 show ?thesis by (blast intro: noNewDependency_trans)
qed

lemma updateUnlock_frame:
  assumes "updateUnlock m r = Inr r'"
  shows "keepsLockTree r r'"
proof -
  have "updateUnlockFrom m r n = Inr r' \<Longrightarrow> keepsLockTree r r'" for n
    by (induction n) (auto simp: keepsLockTree_def split: if_splits)
  with assms show ?thesis by (simp add: updateUnlock_def)
qed

lemma unlockInt_noNew:
  assumes "unlockInt opts g m s = Inr s'"
  shows "noNewDependency s s'"
proof -
  from assms obtain s1 where
    b: "(if \<not> periodicDetection opts \<and> \<not> comprehensiveDetection opts then Inr s
         else
           let index = getRoutineIndex s g in
           if index < 0 \<or> int (length (routines s)) \<le> index then Inl IndexOutOfRange
           else (case updateUnlock m (routines s ! nat index) of
                   Inl e \<Rightarrow> Inl e
                 | Inr r' \<Rightarrow> Inr (s\<lparr>routines := (routines s)[nat index := r']\<rparr>))) = Inr s1"
    and s': "s' = addLockedBy m (getRoutineIndex s1 g) (- 1) (addNumberLocked m (- 1) s1)"
    unfolding unlockInt_def by (auto split: if_splits sum.splits)
  have "noNewDependency s s1"
  proof (cases "\<not> periodicDetection opts \<and> \<not> comprehensiveDetection opts")
    case True
    with b show ?thesis by (simp add: noNewDependency_refl)
  next
    case False
    with b obtain r' where "updateUnlock m (routines s ! nat (getRoutineIndex s g)) = Inr r'"
      "s1 = s\<lparr>routines := (routines s)[nat (getRoutineIndex s g) := r']\<rparr>"
      by (auto simp: Let_def split: if_splits sum.splits)
    moreover have "keepsLockTree (xs ! i) (xs[k := r'] ! i)"
      if "keepsLockTree (xs ! k) r'" "i < length xs" for xs :: "routine list" and i k
      using that by (cases "i = k") (simp_all add: keepsLockTree_refl)
    ultimately show ?thesis
      using updateUnlock_frame [of m "routines s ! nat (getRoutineIndex s g)" r']
      by (simp add: noNewDependency_def)
  qed
  moreover have "noNewDependency s1 s'" unfolding s'
    by (blast intro: noNewDependency_trans addCounters_noNew)
  ultimately show ?thesis by (rule noNewDependency_trans)
qed

lemma syncUnlock_noNew:
  "syncMutexUnlock s a = Inr s' \<Longrightarrow> noNewDependency s s'"
  "syncRWMutexUnlock s a = Inr s' \<Longrightarrow> noNewDependency s s'"
  "syncRWMutexRUnlock s a = Inr s' \<Longrightarrow> noNewDependency s s'"
  by (auto simp: syncMutexUnlock_def syncRWMutexUnlock_def syncRWMutexRUnlock_def
      noNewDependency_def keepsLockTree_refl split: if_splits)

lemma stepTryEvent_noNew:
  assumes "stepTryEvent opts ev s = Inr s'"
  shows "noNewDependency s s'"
proof (cases "evOp ev")
  case (MutexTryLock a)
  with assms show ?thesis
    by (auto simp: stepTryEvent_def dropResult_def Mutex_TryLock_def split: sum.splits
        intro: tryLockInt_noNew)
next
  case (RWMutexTryLock a)
  with assms show ?thesis
    by (auto simp: stepTryEvent_def dropResult_def RWMutex_TryLock_def split: sum.splits
        intro: tryLockInt_noNew)
next
  case (RWMutexRTryLock a)
  with assms show ?thesis
    by (auto simp: stepTryEvent_def dropResult_def RWMutex_RTryLock_def split: sum.splits
        intro: tryLockInt_noNew)
next
  case (MutexUnlock a)
  with assms obtain s1 where "(if activated opts then unlockInt opts (evRoutine ev) (MutexPtr a) s else Inr s) = Inr s1"
    "syncMutexUnlock s1 (mu (locks (heap s1) (MutexPtr a))) = Inr s'"
    by (auto simp: stepTryEvent_def Mutex_Unlock_def split: sum.splits)
  then show ?thesis
    by (auto split: if_splits intro: noNewDependency_trans unlockInt_noNew syncUnlock_noNew)
next
  case (RWMutexUnlock a)
  with assms obtain s1 where "(if activated opts then unlockInt opts (evRoutine ev) (RWMutexPtr a) s else Inr s) = Inr s1"
    "syncRWMutexUnlock s1 (mu (locks (heap s1) (RWMutexPtr a))) = Inr s'"
    by (auto simp: stepTryEvent_def RWMutex_Unlock_def split: sum.splits)
  then show ?thesis
    by (auto split: if_splits intro: noNewDependency_trans unlockInt_noNew syncUnlock_noNew)
next
  case (RWMutexRUnlock a)
  with assms obtain s1 where "(if activated opts then unlockInt opts (evRoutine ev) (RWMutexPtr a) s else Inr s) = Inr s1"
    "syncRWMutexRUnlock s1 (mu (locks (heap s1) (RWMutexPtr a))) = Inr s'"
    by (auto simp: stepTryEvent_def RWMutex_RUnlock_def split: sum.splits)
  then show ?thesis
    by (auto split: if_splits intro: noNewDependency_trans unlockInt_noNew syncUnlock_noNew)
qed

lemma runTryEvents_noNew:
  "runTryEvents opts evs s = Inr s' \<Longrightarrow> noNewDependency s s'"
proof (induction evs arbitrary: s)
  case Nil
  then show ?case by (simp add: noNewDependency_refl)
next
  case (Cons ev evs)
  then obtain s1 where "stepTryEvent opts ev s = Inr s1" "runTryEvents opts evs s1 = Inr s'"
    by (auto split: sum.splits)
  with Cons.IH stepTryEvent_noNew show ?case by (blast intro: noNewDependency_trans)
qed


text \<open>
  Claim C5. updateTryLock either panics (the holding set is full, or the lock is nil) or
  returns the routine with \<open>m\<close> written at position \<open>holdingCount\<close> of the holding set, the
  count incremented and the reader flag of \<open>m\<close> for the routine's index set; the list of
  dependencies, \<open>depCount\<close>, the dependency index, \<open>curDep\<close> and the dependency objects are as
  before. Hence a run of exported try-lock and unlock operations, by any go routines and
  with any results of the try-locks, allocates no dependency and leaves the lock tree of
  every routine as it was (a routine registered on the way starts with an empty one).
\<close>

theorem tryLock_adds_no_dependency:
  "(case updateTryLock opts m rLock r st of
      Inl e \<Rightarrow> maxNumberOfDependentLocks opts \<le> holdingCount r \<or>
               length (holdingSet r) \<le> holdingCount r \<or> m = NilMutex
    | Inr (r', st') \<Rightarrow>
        dependencies r' = dependencies r \<and> depCount r' = depCount r \<and>
        dependencyMap r' = dependencyMap r \<and> curDep r' = curDep r \<and>
        depObjs st' = depObjs st \<and> depNext st' = depNext st \<and>
        index r' = index r \<and> collectedSingleLevelLocks r' = collectedSingleLevelLocks r \<and>
        holdingSet r' = (holdingSet r)[holdingCount r := m] \<and>
        holdingCount r' = holdingCount r + 1 \<and>
        setRLock (locks st) m (index r) rLock = Inr (locks st')) \<and>
   (runTryEvents opts' evs s = Inr s' \<longrightarrow> noNewDependency s s')"
proof
  show "case updateTryLock opts m rLock r st of
      Inl e \<Rightarrow> maxNumberOfDependentLocks opts \<le> holdingCount r \<or>
               length (holdingSet r) \<le> holdingCount r \<or> m = NilMutex
    | Inr (r', st') \<Rightarrow>
        dependencies r' = dependencies r \<and> depCount r' = depCount r \<and>
        dependencyMap r' = dependencyMap r \<and> curDep r' = curDep r \<and>
        depObjs st' = depObjs st \<and> depNext st' = depNext st \<and>
        index r' = index r \<and> collectedSingleLevelLocks r' = collectedSingleLevelLocks r \<and>
        holdingSet r' = (holdingSet r)[holdingCount r := m] \<and>
        holdingCount r' = holdingCount r + 1 \<and>
        setRLock (locks st) m (index r) rLock = Inr (locks st')"
  proof (cases "updateTryLock opts m rLock r st")
    case (Inl e)
    with updateTryLock_error [OF Inl] show ?thesis by simp
  next
    case (Inr p)
    obtain r' st' where p: "p = (r', st')" by (cases p)
    from updateTryLock_frame [OF Inr [unfolded p]] Inr p show ?thesis by simp
  qed
  show "runTryEvents opts' evs s = Inr s' \<longrightarrow> noNewDependency s s'"
    by (simp add: runTryEvents_noNew)
qed


text \<open>
  Go routine 7 try-locks mutex 1 and unlocks it again, with two go routines running: the
  run goes through and adds no dependency.
\<close>

theorem tryLock_adds_no_dependency_witness:
  "(\<exists>s'. runTryEvents exOpts
           [\<lparr>evRoutine = 7, evNumRoutine = 2, evOp = MutexTryLock 1\<rparr>,
            \<lparr>evRoutine = 7, evNumRoutine = 2, evOp = MutexUnlock 1\<rparr>] exDetector = Inr s' \<and>
         noNewDependency exDetector s') \<and>
   (\<exists>r' st'. updateTryLock exOpts (MutexPtr 1) False exRoutine exStore = Inr (r', st') \<and>
         depCount r' = depCount exRoutine \<and> dependencies r' = dependencies exRoutine \<and>
         holdingCount r' = 1)"
proof -
  let ?evs = "[\<lparr>evRoutine = 7, evNumRoutine = 2, evOp = MutexTryLock 1\<rparr>,
            \<lparr>evRoutine = 7, evNumRoutine = 2, evOp = MutexUnlock 1\<rparr>]"
  have "\<exists>s'. runTryEvents exOpts ?evs exDetector = Inr s'"
    by (simp add: stepTryEvent_def dropResult_def Mutex_TryLock_def Mutex_Unlock_def
        tryLockInt_def unlockInt_def primTryLock_def syncMutexUnlock_def getLock_def
        newRoutine_def getRoutineIndex_def addLockedBy_def addNumberLocked_def lockedBy_def
        updateTryLock_def updateUnlock_def setRLock_def
        exDetector_def initialize_def exOpts_def defaultOpts_def exStore_def zeroRoutine_def
        Let_def numeral_2_eq_2)
  then obtain s' where s': "runTryEvents exOpts ?evs exDetector = Inr s'" ..
  have "\<exists>r' st'. updateTryLock exOpts (MutexPtr 1) False exRoutine exStore = Inr (r', st')"
    by (simp add: updateTryLock_def setRLock_def exOpts_def exRoutine_def Let_def)
  then obtain r' st' where u: "updateTryLock exOpts (MutexPtr 1) False exRoutine exStore = Inr (r', st')"
    by blast
  note T = tryLock_adds_no_dependency [where opts = exOpts and m = "MutexPtr 1" and rLock = False
      and r = exRoutine and st = exStore and opts' = exOpts and evs = ?evs
      and s = exDetector and s' = s']
  from T [THEN conjunct2] s' have n: "noNewDependency exDetector s'" by blast
  from T [THEN conjunct1, unfolded u]
  have "depCount r' = depCount exRoutine" and "dependencies r' = dependencies exRoutine"
    and "holdingCount r' = holdingCount exRoutine + 1"
    by (simp_all only: sum.case prod.case)
  with s' u n show ?thesis by (simp add: exRoutine_def del: runTryEvents.simps)
qed

section \<open>RTryLock and TryLock of a reader/writer lock\<close>



section \<open>Properties of newDependency\<close>

lemma newDependency_layout:
  assumes "n \<le> length hs"
  shows "\<exists>d. newDependency opts lock hs n = Inr d \<and> depMu d = lock \<and> depHoldingCount d = n \<and>
           length (depHoldingSet d) = maxNumberOfDependentLocks opts + n \<and>
           (\<forall>i<maxNumberOfDependentLocks opts. depHoldingSet d ! i = NilMutex) \<and>
           (\<forall>i<n. depHoldingSet d ! (maxNumberOfDependentLocks opts + i) = hs ! i)"
  using assms by (simp add: newDependency_def nth_append)

text \<open>
  Claim C9, at a concrete input. With the default options, the dependency that
  newDependency builds for lock 3 and the holding set [lock 1, lock 2] with count 2 has
  count 2, but nil at the positions 0 and 1 of its holding set; the two locks are at the
  positions 128 and 129, behind the 128 slots made with the holding set.
\<close>

theorem newDependency_prefix_is_nil:
  "\<exists>d. newDependency defaultOpts (MutexPtr 3) [MutexPtr 1, MutexPtr 2] 2 = Inr d \<and>
        depHoldingCount d = 2 \<and>
        depHoldingSet d ! 0 = NilMutex \<and> depHoldingSet d ! 1 = NilMutex \<and>
        depHoldingSet d ! 128 = MutexPtr 1 \<and> depHoldingSet d ! 129 = MutexPtr 2 \<and>
        [MutexPtr 1, MutexPtr 2] ! 0 = MutexPtr 1"
  by (simp add: newDependency_def defaultOpts_def nth_append)

section \<open>Properties of lockInt: the double-locking check\<close>



lemma existsE_InlD:
  "existsE f xs = Inl e \<Longrightarrow> \<exists>x\<in>set xs. f x = Inl e"
  by (induction xs) (auto split: sum.splits if_splits)

lemma holdingSetsAgree_InlD:
  "holdingSetsAgree dhs rhs hc i = Inl e \<Longrightarrow> e = IndexOutOfRange"
proof (induction dhs rhs hc i rule: holdingSetsAgree.induct)
  case (1 dhs rhs hc i)
  then show ?case
    by (auto simp: holdingSetsAgree.simps [of dhs rhs hc i] split: if_splits)
qed

lemma dependencyAlreadyExists_InlD:
  assumes "dependencyAlreadyExists ds r m depList = Inl e"
  shows "e = IndexOutOfRange"
proof -
  from existsE_InlD [OF assms [unfolded dependencyAlreadyExists_def]]
  obtain dp where "(let d = ds dp; hc = holdingCount r
          in if depMu d = m \<and> depHoldingCount d = hc
             then case holdingSetsAgree (depHoldingSet d) (holdingSet r) hc 0 of
                  Inl e \<Rightarrow> Inl e | Inr i \<Rightarrow> Inr (i = hc)
             else Inr False) = Inl e" by blast
  then have "holdingSetsAgree (depHoldingSet (ds dp)) (holdingSet r) (holdingCount r) 0 = Inl e"
    by (cases "holdingSetsAgree (depHoldingSet (ds dp)) (holdingSet r) (holdingCount r) 0")
       (auto simp: Let_def split: if_splits)
  then show ?thesis by (rule holdingSetsAgree_InlD)
qed

lemma setRLock_InlD: "setRLock ls m i v = Inl e \<Longrightarrow> e = NilDereference"
  by (cases m) (auto simp: setRLock_def)

lemma getMemoryPosition_InlD: "getMemoryPosition ls m = Inl e \<Longrightarrow> e = NilDereference"
  by (cases m) (auto simp: getMemoryPosition_def)

lemma newDependency_InlD: "newDependency opts m hs n = Inl e \<Longrightarrow> e = IndexOutOfRange"
  by (auto simp: newDependency_def split: if_splits)

lemma updateLockNested_InlD:
  assumes "updateLockNested opts m r st = Inl e"
  shows "e = IndexOutOfRange \<or> e = NilDereference \<or> e = PanicMaxDependencies"
  using assms unfolding updateLockNested_def Let_def
  by (auto split: if_splits sum.splits option.splits
      dest: getMemoryPosition_InlD dependencyAlreadyExists_InlD newDependency_InlD)

lemma updateLock_InlD:
  assumes "updateLock opts site m rLock r st = Inl e"
  shows "e = IndexOutOfRange \<or> e = NilDereference \<or> e = PanicMaxDependencies \<or>
         e = PanicMaxDependentLocks"
  using assms unfolding updateLock_def Let_def
  by (auto split: if_splits sum.splits prod.splits dest: setRLock_InlD updateLockNested_InlD)

lemma newRoutine_InlD:
  "newRoutine opts g s = Inl e \<Longrightarrow> e = PanicMaxRoutines \<or> e = IndexOutOfRange"
  by (auto simp: newRoutine_def Let_def split: if_splits)

lemma primLock_InlD:
  "primLock s m rLock = Inl e \<Longrightarrow> e = Blocked \<or> e = NilDereference"
  by (auto simp: primLock_def getLock_def split: if_splits sum.splits option.splits mutexInt.splits)

lemma primLock_frame:
  "primLock s m rLock = Inr s' \<Longrightarrow> routines s' = routines s \<and> heap s' = heap s \<and>
     numberRoutines s' = numberRoutines s \<and> mapIndex s' = mapIndex s"
  unfolding primLock_def
  by (auto split: sum.splits option.splits if_splits)


lemma getRoutineIndex_registered:
  assumes "registryOk s"
  shows "getRoutineIndex s g = - 1 \<longleftrightarrow> mapIndex s g = None"
proof (cases "mapIndex s g")
  case None
  then show ?thesis by (simp add: getRoutineIndex_def)
next
  case (Some i)
  with assms have "0 \<le> i" by (auto simp: registryOk_def)
  with Some show ?thesis by (simp add: getRoutineIndex_def)
qed

lemma register_result:
  assumes ok: "registryOk s" and det: "periodicDetection opts \<or> comprehensiveDetection opts"
    and reg: "(if getRoutineIndex s g = - 1 then newRoutine opts g s else Inr s) = Inr s1"
  shows "getRoutineIndex s1 g = routineIndexOf s g \<and>
    mapIndex s1 g = Some (routineIndexOf s g) \<and>
    heap s1 = heap s \<and>
    syncMutexes s1 = syncMutexes s \<and>
    syncRWMutexes s1 = syncRWMutexes s \<and>
    0 \<le> routineIndexOf s g \<and>
    nat (routineIndexOf s g) < length (routines s1) \<and>
    registryOk s1 \<and>
    length (routines s1) = length (routines s) \<and>
    (\<forall>g'. g' \<noteq> g \<longrightarrow> mapIndex s1 g' = mapIndex s g') \<and>
    nat (routineIndexOf s g) < numberRoutines s1 \<and> numberRoutines s \<le> numberRoutines s1"
proof (cases "mapIndex s g")
  case (Some i)
  with ok have i: "0 \<le> i" "nat i < numberRoutines s" "numberRoutines s \<le> length (routines s)"
    by (auto simp: registryOk_def)
  from Some getRoutineIndex_registered [OF ok, of g] reg have "s1 = s" by simp
  with Some i ok show ?thesis
    by (simp add: getRoutineIndex_def routineIndexOf_def)
next
  case None
  with getRoutineIndex_registered [OF ok, of g] reg have n: "newRoutine opts g s = Inr s1" by simp
  let ?r = "\<lparr>index = int (numberRoutines s), holdingCount = 0,
               holdingSet = replicate (maxNumberOfDependentLocks opts) NilMutex,
               dependencyMap = Map.empty,
               dependencies = replicate (maxDependencies opts) None,
               curDep = None, depCount = 0, collectedSingleLevelLocks = Map.empty\<rparr>"
  from n det have lt: "numberRoutines s < length (routines s)"
    and s1: "s1 = s\<lparr>routines := (routines s)[numberRoutines s := ?r],
                   mapIndex := (mapIndex s)(g \<mapsto> int (numberRoutines s)),
                   numberRoutines := numberRoutines s + 1\<rparr>"
    by (auto simp: newRoutine_def Let_def split: if_splits)
  have old: "nat j < numberRoutines s \<and> 0 \<le> j \<and> index (routines s ! nat j) = j"
    if "mapIndex s k = Some j" for k j
    using ok that by (auto simp: registryOk_def)
  have ok1: "registryOk s1"
    unfolding registryOk_def
  proof (intro conjI allI impI)
    show "numberRoutines s1 \<le> length (routines s1)" using lt s1 by simp
  next
    fix h i assume h: "mapIndex s1 h = Some i"
    have "0 \<le> i \<and> nat i < numberRoutines s1 \<and> index (routines s1 ! nat i) = i"
    proof (cases "h = g")
      case True
      with h s1 lt show ?thesis by auto
    next
      case False
      with h s1 have "mapIndex s h = Some i" by simp
      from old [OF this] s1 lt show ?thesis by simp
    qed
    then show "0 \<le> i" "nat i < numberRoutines s1" "index (routines s1 ! nat i) = i" by simp_all
  next
    fix h h' i assume a: "mapIndex s1 h = Some i \<and> mapIndex s1 h' = Some i"
    show "h = h'"
    proof (cases "h = g"; cases "h' = g")
      assume "h = g" "h' = g" then show ?thesis by simp
    next
      assume "h = g" "h' \<noteq> g"
      with a s1 have "i = int (numberRoutines s)" "mapIndex s h' = Some i" by auto
      with old [of h' i] show ?thesis by simp
    next
      assume "h \<noteq> g" "h' = g"
      with a s1 have "i = int (numberRoutines s)" "mapIndex s h = Some i" by auto
      with old [of h i] show ?thesis by simp
    next
      assume "h \<noteq> g" "h' \<noteq> g"
      with a s1 have "mapIndex s h = Some i \<and> mapIndex s h' = Some i" by simp
      with ok show ?thesis unfolding registryOk_def by blast
    qed
  qed
  from None s1 lt ok1 show ?thesis
    by (simp add: getRoutineIndex_def routineIndexOf_def)
qed

lemma register_total:
  assumes "registryOk s"
    and "mapIndex s g = None \<longrightarrow> numberRoutines s < maxRoutines opts \<and> numberRoutines s < length (routines s)"
  shows "\<exists>s1. (if getRoutineIndex s g = - 1 then newRoutine opts g s else Inr s) = Inr s1"
  using assms getRoutineIndex_registered [OF assms(1), of g]
  by (auto simp: newRoutine_def Let_def)

lemma routineCheckDoubleLocking_char:
  assumes "m \<noteq> NilMutex" and "lockContext (ls m) \<noteq> []"
  shows "routineCheckDoubleLocking ls m i rLock =
     (if lockedBy (ls m) i \<noteq> 0 \<and> \<not> (rLock \<and> getRLock ls m i = Inr True) then Inl (Exit 2) else Inr ())"
  using assms by (cases m) (auto simp: routineCheckDoubleLocking_def getRLock_def split: option.splits)

lemma routineCheckDoubleLocking_Exit:
  assumes "routineCheckDoubleLocking ls m i rLock = Inl (Exit c)"
  shows "c = 2 \<and> lockedBy (ls m) i \<noteq> 0 \<and> \<not> (rLock \<and> getRLock ls m i = Inr True)"
  using assms by (cases m) (auto simp: routineCheckDoubleLocking_def getRLock_def split: option.splits if_splits)


lemma updateLock_locks_shape:
  assumes "updateLock opts site m rLock r st = Inr (r', st')"
  shows "\<exists>ls ctx. setRLock (locks st) m (index r) rLock = Inr ls \<and>
           locks st' = ls(m := (ls m)\<lparr>lockContext := lockContext (ls m) @ ctx\<rparr>) \<and> index r' = index r"
proof -
  from assms obtain ls isNew r1 st1 where
    ls: "setRLock (locks st) m (index r) rLock = Inr ls" and
    br: "(if 0 < holdingCount r then updateLockNested opts m r (st\<lparr>locks := ls\<rparr>)
            else (let (isNew, r') = updateLockSingleLevel opts site r
                  in Inr (isNew, r', st\<lparr>locks := ls\<rparr>))) = Inr (isNew, r1, st1)" and
    fin: "r' = r1\<lparr>holdingSet := (holdingSet r1)[holdingCount r := m], holdingCount := holdingCount r1 + 1\<rparr>"
      "st' = (if isNew \<and> (0 < holdingCount r \<or> collectSingleLevelLockStack opts) then
               st1\<lparr>locks := (locks st1)(m := (locks st1 m)\<lparr>lockContext := lockContext (locks st1 m) @
                  [newInfo (siteFile site) (siteLine site) False
                     (if collectCallStack opts then siteStack site else [])]\<rparr>)\<rparr>
             else st1)"
    unfolding updateLock_def Let_def
    by (auto split: sum.splits prod.splits if_splits)
  have l1: "locks st1 = ls \<and> index r1 = index r"
  proof (cases "0 < holdingCount r")
    case True
    with br updateLockNested_frame [of opts m r "st\<lparr>locks := ls\<rparr>" isNew r1 st1] show ?thesis by simp
  next
    case False
    with br updateLockSingleLevel_frame [of opts site r isNew r1] show ?thesis
      by (auto split: prod.splits)
  qed
  show ?thesis
  proof (cases "isNew \<and> (0 < holdingCount r \<or> collectSingleLevelLockStack opts)")
    case True
    with fin l1 ls show ?thesis by auto
  next
    case False
    with fin l1 have "locks st' = ls(m := (ls m)\<lparr>lockContext := lockContext (ls m) @ []\<rparr>)"
      by auto
    with ls fin l1 show ?thesis by (intro exI [of _ ls] exI [of _ "[]"]) simp
  qed
qed

lemma updateLock_locks:
  assumes "updateLock opts site m rLock r st = Inr (r', st')"
  shows "numberLocked (locks st' x) = numberLocked (locks st x)"
    and "isLockedRoutineIndex (locks st' x) = isLockedRoutineIndex (locks st x)"
    and "inited (locks st' x) = inited (locks st x)"
    and "lockContext (locks st x) \<noteq> [] \<Longrightarrow> lockContext (locks st' x) \<noteq> []"
    and "index r' = index r"
    and "m = RWMutexPtr a \<Longrightarrow> getRLock (locks st') m (index r) = Inr rLock"
proof -
  from updateLock_locks_shape [OF assms] obtain ls ctx where
    ls: "setRLock (locks st) m (index r) rLock = Inr ls" and
    st': "locks st' = ls(m := (ls m)\<lparr>lockContext := lockContext (ls m) @ ctx\<rparr>)" and
    ix: "index r' = index r" by blast
  from ls have lsx: "numberLocked (ls x) = numberLocked (locks st x) \<and>
      isLockedRoutineIndex (ls x) = isLockedRoutineIndex (locks st x) \<and>
      inited (ls x) = inited (locks st x) \<and> lockContext (ls x) = lockContext (locks st x)"
    by (cases m; cases "x = m") (auto simp: setRLock_def)
  with st' show "numberLocked (locks st' x) = numberLocked (locks st x)"
    "isLockedRoutineIndex (locks st' x) = isLockedRoutineIndex (locks st x)"
    "inited (locks st' x) = inited (locks st x)"
    "lockContext (locks st x) \<noteq> [] \<Longrightarrow> lockContext (locks st' x) \<noteq> []"
    by auto
  show "index r' = index r" by (rule ix)
  show "getRLock (locks st') m (index r) = Inr rLock" if "m = RWMutexPtr a"
    using that ls st' by (auto simp: setRLock_def getRLock_def)
qed


lemma lockIntBookkeeping_unfold:
  assumes ok: "registryOk s" and det: "periodicDetection opts \<or> comprehensiveDetection opts"
    and reg: "(if getRoutineIndex s g = - 1 then newRoutine opts g s else Inr s) = Inr s1"
  shows "lockIntBookkeeping opts g n site m rLock s =
     (case (if checkDoubleLocking opts \<and> numberLocked (locks (heap s) m) \<noteq> 0
            then routineCheckDoubleLocking (locks (heap s)) m (routineIndexOf s g) rLock
            else Inr ()) of
        Inl e \<Rightarrow> Inl e
      | Inr _ \<Rightarrow>
          let s2 = addLockedBy m (routineIndexOf s g) 1 s1 in
          if 1 < n then
            (case updateLock opts site m rLock (routines s2 ! nat (routineIndexOf s g)) (heap s2) of
               Inl e \<Rightarrow> Inl e
             | Inr (r', st') \<Rightarrow>
                 Inr (s2\<lparr>routines := (routines s2)[nat (routineIndexOf s g) := r'], heap := st'\<rparr>))
          else Inr s2)"
proof -
  from register_result [OF ok det reg]
  have gi: "getRoutineIndex s1 g = routineIndexOf s g" and hp: "heap s1 = heap s"
    and rng: "\<not> (routineIndexOf s g < 0 \<or> int (length (routines s1)) \<le> routineIndexOf s g)"
    by auto
  show ?thesis
    unfolding lockIntBookkeeping_def Let_def reg sum.case gi hp
    using rng by (simp only: if_False)
qed

lemma lockIntBookkeeping_Exit:
  assumes ok: "registryOk s" and det: "periodicDetection opts \<or> comprehensiveDetection opts"
    and ex: "lockIntBookkeeping opts g n site m rLock s = Inl (Exit c)"
  shows "c = 2 \<and> checkDoubleLocking opts \<and> numberLocked (locks (heap s) m) \<noteq> 0 \<and>
         lockedBy (locks (heap s) m) (routineIndexOf s g) \<noteq> 0 \<and>
         \<not> (rLock \<and> getRLock (locks (heap s)) m (routineIndexOf s g) = Inr True)"
proof (cases "if getRoutineIndex s g = - 1 then newRoutine opts g s else Inr s")
  case (Inl e)
  then have "e = PanicMaxRoutines \<or> e = IndexOutOfRange"
    by (auto split: if_splits dest: newRoutine_InlD)
  with Inl ex show ?thesis by (auto simp: lockIntBookkeeping_def)
next
  case (Inr s1)
  note u = lockIntBookkeeping_unfold [OF ok det Inr, of n site m rLock]
  show ?thesis
  proof (cases "checkDoubleLocking opts \<and> numberLocked (locks (heap s) m) \<noteq> 0")
    case True
    show ?thesis
    proof (cases "routineCheckDoubleLocking (locks (heap s)) m (routineIndexOf s g) rLock")
      case (Inl e)
      with u True ex have "e = Exit c" by simp
      with Inl routineCheckDoubleLocking_Exit True show ?thesis by blast
    next
      case (Inr x)
      with u True ex show ?thesis
        by (auto simp: Let_def split: if_splits sum.splits dest: updateLock_InlD)
    qed
  next
    case False
    with u ex show ?thesis
      by (auto simp: Let_def split: if_splits sum.splits dest: updateLock_InlD)
  qed
qed

lemma lockIntBookkeeping_trigger:
  assumes ok: "registryOk s" and det: "periodicDetection opts \<or> comprehensiveDetection opts"
    and cap: "mapIndex s g = None \<longrightarrow> numberRoutines s < maxRoutines opts \<and> numberRoutines s < length (routines s)"
    and m: "m \<noteq> NilMutex" "lockContext (locks (heap s) m) \<noteq> []"
    and chk: "checkDoubleLocking opts"
    and trig: "numberLocked (locks (heap s) m) \<noteq> 0" "lockedBy (locks (heap s) m) (routineIndexOf s g) \<noteq> 0"
      "\<not> (rLock \<and> getRLock (locks (heap s)) m (routineIndexOf s g) = Inr True)"
  shows "lockIntBookkeeping opts g n site m rLock s = Inl (Exit 2)"
proof -
  from register_total [OF ok cap] obtain s1 where
    reg: "(if getRoutineIndex s g = - 1 then newRoutine opts g s else Inr s) = Inr s1" by blast
  show ?thesis
    unfolding lockIntBookkeeping_unfold [OF ok det reg]
    using chk trig by (simp add: routineCheckDoubleLocking_char [of m "locks (heap s)", OF m])
qed

lemma lockInt_Exit_iff:
  assumes act: "activated opts" and det: "periodicDetection opts \<or> comprehensiveDetection opts"
    and m: "m \<noteq> NilMutex" "inited (locks (heap s) m)"
  shows "lockInt opts g n site m rLock s = Inl (Exit c) \<longleftrightarrow>
         lockIntBookkeeping opts g n site m rLock s = Inl (Exit c)"
proof (cases "lockIntBookkeeping opts g n site m rLock s")
  case (Inr s1)
  with act det m show ?thesis
    by (auto simp: lockInt_def split: sum.splits dest: primLock_InlD)
next
  case (Inl e)
  show ?thesis
  proof (cases "\<exists>c'. e = Exit c'")
    case True
    with Inl act det m show ?thesis by (auto simp: lockInt_def)
  next
    case False
    then have ne: "e \<noteq> Exit c" by blast
    have "lockInt opts g n site m rLock s = Inl Blocked \<or> lockInt opts g n site m rLock s = Inl e"
      using Inl act det m False
      by (cases e; cases "primLock s m rLock")
         (auto simp: lockInt_def split: error.splits sum.splits)
    with ne Inl show ?thesis by auto
  qed
qed


lemma addLockedBy_simps:
  "routines (addLockedBy m i k s) = routines s" "mapIndex (addLockedBy m i k s) = mapIndex s"
  "numberRoutines (addLockedBy m i k s) = numberRoutines s"
  "syncMutexes (addLockedBy m i k s) = syncMutexes s" "syncRWMutexes (addLockedBy m i k s) = syncRWMutexes s"
  "numberLocked (locks (heap (addLockedBy m i k s)) x) = numberLocked (locks (heap s) x)"
  "inited (locks (heap (addLockedBy m i k s)) x) = inited (locks (heap s) x)"
  "lockContext (locks (heap (addLockedBy m i k s)) x) = lockContext (locks (heap s) x)"
  "isRLock (locks (heap (addLockedBy m i k s)) x) = isRLock (locks (heap s) x)"
  "lockedBy (locks (heap (addLockedBy m i k s)) m) j =
     lockedBy (locks (heap s) m) j + (if j = i then k else 0)"
  by (auto simp: addLockedBy_def lockedBy_def)

lemma addNumberLocked_simps:
  "routines (addNumberLocked m k s) = routines s" "mapIndex (addNumberLocked m k s) = mapIndex s"
  "numberRoutines (addNumberLocked m k s) = numberRoutines s"
  "numberLocked (locks (heap (addNumberLocked m k s)) m) = numberLocked (locks (heap s) m) + k"
  "inited (locks (heap (addNumberLocked m k s)) x) = inited (locks (heap s) x)"
  "lockContext (locks (heap (addNumberLocked m k s)) x) = lockContext (locks (heap s) x)"
  "isLockedRoutineIndex (locks (heap (addNumberLocked m k s)) x) = isLockedRoutineIndex (locks (heap s) x)"
  "getRLock (locks (heap (addNumberLocked m k s))) x j = getRLock (locks (heap s)) x j"
  by (auto simp: addNumberLocked_def getRLock_def split: mutexInt.splits)

lemma registryOk_cong:
  assumes "registryOk s" and "mapIndex s' = mapIndex s" and "numberRoutines s' = numberRoutines s"
    and "length (routines s') = length (routines s)"
    and "\<And>i. i < length (routines s) \<Longrightarrow> index (routines s' ! i) = index (routines s ! i)"
  shows "registryOk s'"
  using assms unfolding registryOk_def
  by (metis (no_types, lifting) less_le_trans)

lemma lockInt_Inr_effect:
  assumes act: "activated opts" and det: "periodicDetection opts \<or> comprehensiveDetection opts"
    and m: "m \<noteq> NilMutex" "inited (locks (heap s) m)"
    and ok: "registryOk s"
    and run: "lockInt opts g n site m rLock s = Inr s'"
  shows "registryOk s' \<and> mapIndex s' g = Some (routineIndexOf s g) \<and>
         (\<forall>g'. g' \<noteq> g \<longrightarrow> mapIndex s' g' = mapIndex s g') \<and>
         nat (routineIndexOf s g) < numberRoutines s' \<and> numberRoutines s \<le> numberRoutines s' \<and>
         0 \<le> routineIndexOf s g \<and>
         numberLocked (locks (heap s') m) = numberLocked (locks (heap s) m) + 1 \<and>
         (\<forall>i. lockedBy (locks (heap s') m) i =
                lockedBy (locks (heap s) m) i + (if i = routineIndexOf s g then 1 else 0)) \<and>
         inited (locks (heap s') m) \<and>
         (lockContext (locks (heap s) m) \<noteq> [] \<longrightarrow> lockContext (locks (heap s') m) \<noteq> []) \<and>
         (1 < n \<longrightarrow> (\<forall>a. m = RWMutexPtr a \<longrightarrow>
            getRLock (locks (heap s')) m (routineIndexOf s g) = Inr rLock))"
proof -
  let ?idx = "routineIndexOf s g"
  from run act det m obtain s2 s3 where
    bk: "lockIntBookkeeping opts g n site m rLock s = Inr s2" and
    pl: "primLock s2 m rLock = Inr s3" and s': "s' = addNumberLocked m 1 s3"
    by (auto simp: lockInt_def split: sum.splits error.splits)
  from bk obtain s1 where reg: "(if getRoutineIndex s g = - 1 then newRoutine opts g s else Inr s) = Inr s1"
    unfolding lockIntBookkeeping_def by (auto split: sum.splits)
  note rr = register_result [OF ok det reg]
  note u = lockIntBookkeeping_unfold [OF ok det reg, of n site m rLock]
  let ?s2' = "addLockedBy m ?idx 1 s1"
  from rr have ok1: "registryOk s1" and mi1: "mapIndex s1 g = Some ?idx" by simp_all
  from ok1 mi1 have ix1: "index (routines s1 ! nat ?idx) = ?idx" by (auto simp: registryOk_def)
  have ok2': "registryOk ?s2'"
    by (rule registryOk_cong [OF ok1]) (simp_all add: addLockedBy_simps)
  have s2: "registryOk s2 \<and> mapIndex s2 = mapIndex s1 \<and> numberRoutines s2 = numberRoutines s1 \<and>
      numberLocked (locks (heap s2) m) = numberLocked (locks (heap s) m) \<and>
      (\<forall>i. lockedBy (locks (heap s2) m) i = lockedBy (locks (heap s) m) i + (if i = ?idx then 1 else 0)) \<and>
      inited (locks (heap s2) m) \<and>
      (lockContext (locks (heap s) m) \<noteq> [] \<longrightarrow> lockContext (locks (heap s2) m) \<noteq> []) \<and>
      (1 < n \<longrightarrow> (\<forall>a. m = RWMutexPtr a \<longrightarrow> getRLock (locks (heap s2)) m ?idx = Inr rLock))"
  proof (cases "1 < n")
    case False
    with bk u have "s2 = ?s2'" by (auto simp: Let_def split: sum.splits)
    with ok2' rr m False show ?thesis by (simp add: addLockedBy_simps)
  next
    case True
    with bk u obtain r' st' where
      ul: "updateLock opts site m rLock (routines ?s2' ! nat ?idx) (heap ?s2') = Inr (r', st')" and
      s2e: "s2 = ?s2'\<lparr>routines := (routines ?s2')[nat ?idx := r'], heap := st'\<rparr>"
      by (auto simp: Let_def split: sum.splits)
    note ll = updateLock_locks [OF ul]
    have ixr: "index (routines ?s2' ! nat ?idx) = ?idx" using ix1 by (simp add: addLockedBy_simps)
    have "registryOk s2"
    proof (rule registryOk_cong [OF ok2'])
      fix i assume "i < length (routines ?s2')"
      then show "index (routines s2 ! i) = index (routines ?s2' ! i)"
        using ll(5) s2e by (cases "i = nat ?idx") simp_all
    qed (simp_all add: s2e)
    moreover have "lockedBy (locks (heap s2) m) i = lockedBy (locks (heap s) m) i + (if i = ?idx then 1 else 0)" for i
    proof -
      have "lockedBy (locks (heap s2) m) i = lockedBy (locks (heap ?s2') m) i"
        using ll(2) [of m] s2e by (simp add: lockedBy_def)
      then show ?thesis using rr by (simp add: addLockedBy_simps)
    qed
    moreover have "getRLock (locks (heap s2)) m ?idx = Inr rLock" if "m = RWMutexPtr a" for a
      using ll(6) [OF that] ixr s2e by simp
    ultimately show ?thesis
      using ll(1) [of m] ll(3) [of m] ll(4) [of m] s2e rr m
      by (simp add: addLockedBy_simps)
  qed
  from primLock_frame [OF pl] have f3: "routines s3 = routines s2" "heap s3 = heap s2"
    "numberRoutines s3 = numberRoutines s2" "mapIndex s3 = mapIndex s2" by simp_all
  have ok': "registryOk s'"
    by (rule registryOk_cong [of s2]) (use s2 f3 s' in \<open>simp_all add: addNumberLocked_simps\<close>)
  from s2 f3 s' rr ok' show ?thesis
    by (simp add: addNumberLocked_simps lockedBy_def)
qed


text \<open>
  What lockInt tests, in terms of the counters and the flag it reads. With the detector
  activated, double-lock checking enabled and at least one of the periodical and the
  comprehensive detection enabled, on a lock that was created and a registry in order:
  lockInt exits with status 2 exactly when the lock's \<open>numberLocked\<close> is not 0, the entry of
  the calling routine in \<open>isLockedRoutineIndex\<close> is not 0, and not both the new attempt is a
  reader acquisition and the lock's reader flag for the routine is set; it exits with no
  other status. On a lock whose counters are all 0: after go routine \<open>g\<close> has locked it, a
  lock by another go routine does not exit, and a writer lock by \<open>g\<close> exits with status 2;
  a second read-lock by \<open>g\<close> does not exit if the first ran while more than one go routine
  was running.
\<close>

lemma lockInt_double_lock_exit:
  assumes act: "activated opts" and chk: "checkDoubleLocking opts"
    and det: "periodicDetection opts \<or> comprehensiveDetection opts"
    and m: "m \<noteq> NilMutex" "inited (locks (heap s) m)" "lockContext (locks (heap s) m) \<noteq> []"
    and ok: "registryOk s"
    and cap: "mapIndex s g = None \<longrightarrow>
               numberRoutines s < maxRoutines opts \<and> numberRoutines s < length (routines s)"
  shows "(lockInt opts g n site m rLock s = Inl (Exit 2) \<longleftrightarrow>
            numberLocked (locks (heap s) m) \<noteq> 0 \<and>
            lockedBy (locks (heap s) m) (routineIndexOf s g) \<noteq> 0 \<and>
            \<not> (rLock \<and> getRLock (locks (heap s)) m (routineIndexOf s g) = Inr True)) \<and>
         (\<forall>c. lockInt opts g n site m rLock s = Inl (Exit c) \<longrightarrow> c = 2) \<and>
         (\<forall>s1 g' n' site' rLock' c.
            notHeld s m \<and> lockInt opts g n site m rLock s = Inr s1 \<and> g' \<noteq> g \<longrightarrow>
            lockInt opts g' n' site' m rLock' s1 \<noteq> Inl (Exit c)) \<and>
         (\<forall>s1 n' site'.
            notHeld s m \<and> lockInt opts g n site m rLock s = Inr s1 \<longrightarrow>
            lockInt opts g n' site' m False s1 = Inl (Exit 2)) \<and>
         (\<forall>s1 n' site' a c.
            m = RWMutexPtr a \<and> rLock \<and> 1 < n \<and> lockInt opts g n site m rLock s = Inr s1 \<longrightarrow>
            lockInt opts g n' site' m True s1 \<noteq> Inl (Exit c))"
proof (intro conjI allI impI)
  show "lockInt opts g n site m rLock s = Inl (Exit 2) \<longleftrightarrow>
            numberLocked (locks (heap s) m) \<noteq> 0 \<and>
            lockedBy (locks (heap s) m) (routineIndexOf s g) \<noteq> 0 \<and>
            \<not> (rLock \<and> getRLock (locks (heap s)) m (routineIndexOf s g) = Inr True)"
    unfolding lockInt_Exit_iff [OF act det m(1,2)]
    using lockIntBookkeeping_Exit [OF ok det, of g n site m rLock 2]
      lockIntBookkeeping_trigger [OF ok det cap m(1,3) chk, of rLock n site]
    by blast
next
  fix c assume "lockInt opts g n site m rLock s = Inl (Exit c)"
  then show "c = 2"
    unfolding lockInt_Exit_iff [OF act det m(1,2)]
    using lockIntBookkeeping_Exit [OF ok det] by blast
next
  fix s1 g' n' site' rLock' c
  assume a: "notHeld s m \<and> lockInt opts g n site m rLock s = Inr s1 \<and> g' \<noteq> g"
  then have run: "lockInt opts g n site m rLock s = Inr s1" and ne: "g' \<noteq> g" and nh: "notHeld s m"
    by simp_all
  note e = lockInt_Inr_effect [OF act det m(1,2) ok run]
  from e have ok1: "registryOk s1" and in1: "inited (locks (heap s1) m)" by simp_all
  have idx: "routineIndexOf s1 g' \<noteq> routineIndexOf s g"
  proof (cases "mapIndex s1 g'")
    case None
    with e show ?thesis by (auto simp: routineIndexOf_def)
  next
    case (Some i)
    with e ok1 ne have "i \<noteq> routineIndexOf s g" unfolding registryOk_def by metis
    with Some show ?thesis by (simp add: routineIndexOf_def)
  qed
  with e nh have z: "lockedBy (locks (heap s1) m) (routineIndexOf s1 g') = 0"
    by (simp add: notHeld_def)
  show "lockInt opts g' n' site' m rLock' s1 \<noteq> Inl (Exit c)"
  proof
    assume "lockInt opts g' n' site' m rLock' s1 = Inl (Exit c)"
    then have "lockIntBookkeeping opts g' n' site' m rLock' s1 = Inl (Exit c)"
      unfolding lockInt_Exit_iff [OF act det m(1) in1] .
    from lockIntBookkeeping_Exit [OF ok1 det this] z show False by simp
  qed
next
  fix s1 n' site'
  assume a: "notHeld s m \<and> lockInt opts g n site m rLock s = Inr s1"
  then have run: "lockInt opts g n site m rLock s = Inr s1" and nh: "notHeld s m" by simp_all
  note e = lockInt_Inr_effect [OF act det m(1,2) ok run]
  from e have ok1: "registryOk s1" and in1: "inited (locks (heap s1) m)"
    and cx1: "lockContext (locks (heap s1) m) \<noteq> []" and mi: "mapIndex s1 g = Some (routineIndexOf s g)"
    using m(3) by simp_all
  from mi have ix: "routineIndexOf s1 g = routineIndexOf s g" by (simp add: routineIndexOf_def)
  from mi have cap1: "mapIndex s1 g = None \<longrightarrow>
               numberRoutines s1 < maxRoutines opts \<and> numberRoutines s1 < length (routines s1)" by simp
  from e nh have t: "numberLocked (locks (heap s1) m) \<noteq> 0"
    "lockedBy (locks (heap s1) m) (routineIndexOf s1 g) \<noteq> 0"
    by (simp_all add: notHeld_def ix)
  have "lockIntBookkeeping opts g n' site' m False s1 = Inl (Exit 2)"
    by (rule lockIntBookkeeping_trigger [OF ok1 det cap1 m(1) cx1 chk t]) simp
  then show "lockInt opts g n' site' m False s1 = Inl (Exit 2)"
    unfolding lockInt_Exit_iff [OF act det m(1) in1] .
next
  fix s1 n' site' a c
  assume a: "m = RWMutexPtr a \<and> rLock \<and> 1 < n \<and> lockInt opts g n site m rLock s = Inr s1"
  then have run: "lockInt opts g n site m rLock s = Inr s1" by blast
  note e = lockInt_Inr_effect [OF act det m(1,2) ok run]
  from e have ok1: "registryOk s1" and in1: "inited (locks (heap s1) m)"
    and mi: "mapIndex s1 g = Some (routineIndexOf s g)" by simp_all
  from mi have ix: "routineIndexOf s1 g = routineIndexOf s g" by (simp add: routineIndexOf_def)
  from e a have rd: "getRLock (locks (heap s1)) m (routineIndexOf s1 g) = Inr True"
    by (simp add: ix)
  show "lockInt opts g n' site' m True s1 \<noteq> Inl (Exit c)"
  proof
    assume "lockInt opts g n' site' m True s1 = Inl (Exit c)"
    then have "lockIntBookkeeping opts g n' site' m True s1 = Inl (Exit c)"
      unfolding lockInt_Exit_iff [OF act det m(1) in1] .
    from lockIntBookkeeping_Exit [OF ok1 det this] rd show False by simp
  qed
qed


text \<open>
  On the initialised detector, go routine 7 locks mutex 1 (two go routines running): the
  call returns; a second lock of mutex 1 by go routine 7 exits with status 2, a lock by go
  routine 8 does not.
\<close>

lemma lockInt_double_lock_exit_example:
  "activated exOpts \<and> checkDoubleLocking exOpts \<and>
   (periodicDetection exOpts \<or> comprehensiveDetection exOpts) \<and>
   MutexPtr 1 \<noteq> NilMutex \<and> inited (locks (heap exDetector) (MutexPtr 1)) \<and>
   lockContext (locks (heap exDetector) (MutexPtr 1)) \<noteq> [] \<and> registryOk exDetector \<and>
   mapIndex exDetector 7 = None \<and>
   numberRoutines exDetector < maxRoutines exOpts \<and>
   numberRoutines exDetector < length (routines exDetector) \<and>
   notHeld exDetector (MutexPtr 1) \<and>
   (\<exists>s1. lockInt exOpts 7 2 exSite (MutexPtr 1) False exDetector = Inr s1 \<and>
         lockInt exOpts 7 2 exSite (MutexPtr 1) False s1 = Inl (Exit 2) \<and>
         lockInt exOpts 8 2 exSite (MutexPtr 1) False s1 \<noteq> Inl (Exit 2))"
proof -
  have h: "activated exOpts" "checkDoubleLocking exOpts"
    "periodicDetection exOpts \<or> comprehensiveDetection exOpts"
    "MutexPtr 1 \<noteq> NilMutex" "inited (locks (heap exDetector) (MutexPtr 1))"
    "lockContext (locks (heap exDetector) (MutexPtr 1)) \<noteq> []" "registryOk exDetector"
    "mapIndex exDetector 7 = None \<longrightarrow>
      numberRoutines exDetector < maxRoutines exOpts \<and>
      numberRoutines exDetector < length (routines exDetector)"
    by (simp_all add: exOpts_def defaultOpts_def exDetector_def initialize_def exStore_def
        registryOk_def)
  have nh: "notHeld exDetector (MutexPtr 1)"
    by (simp add: notHeld_def lockedBy_def exDetector_def initialize_def exStore_def)
  have "\<exists>s1. lockInt exOpts 7 2 exSite (MutexPtr 1) False exDetector = Inr s1"
    by (simp add: lockInt_def lockIntBookkeeping_def primLock_def getLock_def
        newRoutine_def getRoutineIndex_def addLockedBy_def addNumberLocked_def lockedBy_def
        updateLock_def updateLockSingleLevel_def setRLock_def newInfo_def
        exDetector_def initialize_def exOpts_def defaultOpts_def exStore_def zeroRoutine_def exSite_def
        Let_def numeral_2_eq_2)
  then obtain s1 where s1: "lockInt exOpts 7 2 exSite (MutexPtr 1) False exDetector = Inr s1" ..
  note T = lockInt_double_lock_exit [OF h, of 2 exSite False]
  from T nh s1 have "lockInt exOpts 7 2 exSite (MutexPtr 1) False s1 = Inl (Exit 2)" by blast
  moreover have "(8 :: int) \<noteq> 7" by simp
  with T nh s1 have "lockInt exOpts 8 2 exSite (MutexPtr 1) False s1 \<noteq> Inl (Exit 2)"
    by blast
  moreover have "mapIndex exDetector 7 = None"
    "numberRoutines exDetector < maxRoutines exOpts"
    "numberRoutines exDetector < length (routines exDetector)"
    by (simp_all add: exOpts_def defaultOpts_def exDetector_def initialize_def exStore_def)
  ultimately show ?thesis using h(1-7) nh s1 by blast
qed

text \<open>
  With both detections disabled lockInt returns before the check (\<^verbatim>\<open>return if detection is
  disabled\<close>): go routine 7 locks mutex 1 twice, the first call returns and the second does
  not exit with status 2 but blocks on the primitive.
\<close>

lemma double_lock_unchecked_without_detection:
  "checkDoubleLocking (exOpts\<lparr>periodicDetection := False, comprehensiveDetection := False\<rparr>) \<and>
   activated (exOpts\<lparr>periodicDetection := False, comprehensiveDetection := False\<rparr>) \<and>
   Mutex_Lock (exOpts\<lparr>periodicDetection := False, comprehensiveDetection := False\<rparr>) 7 2 exSite 1 exDetector =
     Inr (addNumberLocked (MutexPtr 1) 1 (exDetector\<lparr>syncMutexes := (syncMutexes exDetector)(1 := True)\<rparr>)) \<and>
   Mutex_Lock (exOpts\<lparr>periodicDetection := False, comprehensiveDetection := False\<rparr>) 7 2 exSite 1
     (addNumberLocked (MutexPtr 1) 1 (exDetector\<lparr>syncMutexes := (syncMutexes exDetector)(1 := True)\<rparr>)) =
     Inl Blocked \<and>
   Inl Blocked \<noteq> (Inl (Exit 2) :: error + detector)"
  by (simp add: Mutex_Lock_def lockInt_def primLock_def getLock_def addNumberLocked_def
        exDetector_def initialize_def exOpts_def defaultOpts_def exStore_def)

text \<open>
  Claim C4, at two concrete inputs. The detector is activated, double-lock checking and the
  comprehensive detection are enabled, and the periodical detection is disabled, so that no
  go routine of the detector runs beside the program. The reader flag of a lock is written
  by updateLock only, and lockInt calls updateLock only when more than one go routine is
  running; checkDoubleLocking reads the flag whenever the routine's entry in
  \<open>isLockedRoutineIndex\<close> is not 0.

  (1) Go routine 7 is the only go routine and read-locks the reader/writer lock 1 twice.
  The first call returns and leaves one reader on the primitive. The second call exits with
  status 2, although the existing hold and the new attempt are both reader acquisitions:
  the flag was never written. With two go routines running, the same two calls return.

  (2) Go routine 7 read-locks lock 1 while two go routines are running, releases it, locks
  it as a writer while it is the only go routine, and read-locks it again. It holds the
  lock as a writer then (the primitive has a writer, both counters are 1), and the new
  attempt is a reader acquisition; the call does not exit with status 2 but blocks on the
  primitive: the check finds the flag that the first read-lock left.
\<close>

theorem double_lock_check_reads_unmaintained_reader_flag:
  "activated exCompOpts \<and> checkDoubleLocking exCompOpts \<and> comprehensiveDetection exCompOpts \<and>
   \<not> periodicDetection exCompOpts \<and>
   (case RWMutex_RLock exCompOpts 7 1 exSite 1 exDetector of
      Inl e \<Rightarrow> False
    | Inr s1 \<Rightarrow>
        readers (syncRWMutexes s1 1) = 1 \<and> \<not> writer (syncRWMutexes s1 1) \<and>
        RWMutex_RLock exCompOpts 7 1 exSite 1 s1 = Inl (Exit 2)) \<and>
   (case RWMutex_RLock exCompOpts 7 2 exSite 1 exDetector of
      Inl e \<Rightarrow> False
    | Inr s1 \<Rightarrow>
        (case RWMutex_RLock exCompOpts 7 2 exSite 1 s1 of
           Inl e \<Rightarrow> False
         | Inr s2 \<Rightarrow> readers (syncRWMutexes s2 1) = 2)) \<and>
   (case RWMutex_RLock exCompOpts 7 2 exSite 1 exDetector of
      Inl e \<Rightarrow> False
    | Inr s1 \<Rightarrow>
   (case RWMutex_RUnlock exCompOpts 7 1 s1 of
      Inl e \<Rightarrow> False
    | Inr s2 \<Rightarrow>
   (case RWMutex_Lock exCompOpts 7 1 exSite 1 s2 of
      Inl e \<Rightarrow> False
    | Inr s3 \<Rightarrow>
        writer (syncRWMutexes s3 1) \<and>
        numberLocked (locks (heap s3) (RWMutexPtr 1)) = 1 \<and>
        lockedBy (locks (heap s3) (RWMutexPtr 1)) 0 = 1 \<and>
        RWMutex_RLock exCompOpts 7 1 exSite 1 s3 = Inl Blocked)))"
  by (simp add: RWMutex_RLock_def RWMutex_Lock_def RWMutex_RUnlock_def lockInt_def unlockInt_def
        lockIntBookkeeping_def primLock_def getLock_def syncRWMutexRUnlock_def
        newRoutine_def getRoutineIndex_def addLockedBy_def addNumberLocked_def lockedBy_def
        routineCheckDoubleLocking_def getRLock_def setRLock_def newInfo_def
        updateLock_def updateLockSingleLevel_def updateLockNested_def updateUnlock_def
        getMemoryPosition_def dependencyAlreadyExists_def newDependency_def update_def
        exDetector_def initialize_def exCompOpts_def exOpts_def defaultOpts_def exStore_def
        zeroRoutine_def exSite_def Let_def numeral_2_eq_2)

section \<open>Properties of periodicalDetection\<close>





section \<open>The traversed marker in the periodical search\<close>

text \<open>
  Claim C8, at a concrete input. Three routines are registered; their current dependencies
  0, 1 and 2 form a chain that is not a cycle. Started from routine 0, the periodical
  search descends with dependency 1 of routine 1 on the path: the recursive call is entered
  with the stack [dependency 0 with index 0, dependency 1 with index 3] and with
  \<open>isTraversed = [True, False, False, True]\<close>. The marker of routine 1 is not set; the
  marker at \<open>numberRoutines = 3\<close> is, and 3 is the index recorded on the stack. One level
  deeper the path holds the dependencies of the routines 1 and 2, and neither marker is
  set.
\<close>

theorem dfsPeriodical_marks_numberRoutines:
  "numberRoutines exChain = 3 \<and> curDep (routines exChain ! 1) = Some 1 \<and>
   curDep (routines exChain ! 2) = Some 2 \<and>
   (case detectionPeriodical 12 exChainOpts (replicate 4 NilMutex) exChain of
      Inl e \<Rightarrow> False
    | Inr (stk, isTraversed, explored) \<Rightarrow>
        explored ! 1 =
          (\<lparr>stack = \<lparr>depEntry = None, stackIndex = - 1\<rparr>,
            chain = [\<lparr>depEntry = Some 0, stackIndex = 0\<rparr>,
                     \<lparr>depEntry = Some 1, stackIndex = 3\<rparr>]\<rparr>,
           [True, False, False, True]) \<and>
        explored ! 2 =
          (\<lparr>stack = \<lparr>depEntry = None, stackIndex = - 1\<rparr>,
            chain = [\<lparr>depEntry = Some 0, stackIndex = 0\<rparr>,
                     \<lparr>depEntry = Some 1, stackIndex = 3\<rparr>,
                     \<lparr>depEntry = Some 2, stackIndex = 3\<rparr>]\<rparr>,
           [True, False, False, True]))"
  by code_simp


end
